theory Spec2Isabelle
  imports Main
begin

section \<open>Strings: the Python string operations used by emailhandler.py\<close>

text \<open>
  Python 2 byte strings are modelled as \<open>string\<close> (a list of \<open>char\<close>).  Two characters
  cannot be written inside a string literal of a quoted term; they get names.
\<close>

definition dquote :: char where
  "dquote = CHR 0x22"

definition newline :: char where
  "newline = CHR 0x0A"

text \<open>\<^verbatim>\<open>needle in s\<close>: substring test.\<close>

fun contains :: "string \<Rightarrow> string \<Rightarrow> bool" where
  "contains needle [] = (needle = [])"
| "contains needle (c # cs) =
     (take (length needle) (c # cs) = needle \<or> contains needle cs)"

text \<open>\<^verbatim>\<open>s.strip(ch)\<close> for a single character \<open>ch\<close>: drop it from both ends.\<close>

definition strip :: "char \<Rightarrow> string \<Rightarrow> string" where
  "strip ch s = rev (dropWhile (\<lambda>c. c = ch) (rev (dropWhile (\<lambda>c. c = ch) s)))"

text \<open>
  \<^verbatim>\<open>s.replace(old, new)\<close>: every non-overlapping occurrence, left to right.  With an
  empty \<open>old\<close> Python inserts \<open>new\<close> before every character and at the end.
\<close>

function replace_scan :: "string \<Rightarrow> string \<Rightarrow> string \<Rightarrow> string" where
  "replace_scan old new s =
     (if s = [] \<or> old = [] then s
      else if take (length old) s = old
           then new @ replace_scan old new (drop (length old) s)
           else hd s # replace_scan old new (tl s))"
  by pat_completeness auto
termination
  by (relation "measure (\<lambda>(old, new, s). length s)") (auto simp: neq_Nil_conv)

declare replace_scan.simps [simp del]

definition replace :: "string \<Rightarrow> string \<Rightarrow> string \<Rightarrow> string" where
  "replace old new s =
     (if old = [] then new @ concat (map (\<lambda>c. c # new) s) else replace_scan old new s)"

text \<open>Splitting at the first and at the last occurrence of a separator.\<close>

fun split_first :: "string \<Rightarrow> string \<Rightarrow> (string \<times> string) option" where
  "split_first sep [] = (if sep = [] then Some ([], []) else None)"
| "split_first sep (c # cs) =
     (if take (length sep) (c # cs) = sep then Some ([], drop (length sep) (c # cs))
      else (case split_first sep cs of
              None \<Rightarrow> None
            | Some (before, after) \<Rightarrow> Some (c # before, after)))"

definition split_last :: "string \<Rightarrow> string \<Rightarrow> (string \<times> string) option" where
  "split_last sep s =
     (case split_first (rev sep) (rev s) of
        None \<Rightarrow> None
      | Some (a, b) \<Rightarrow> Some (rev b, rev a))"

subsection \<open>Decimal numerals: \<^verbatim>\<open>"%d" % n\<close> and \<^verbatim>\<open>int(s)\<close>\<close>

definition is_digit :: "char \<Rightarrow> bool" where
  "is_digit c = (48 \<le> (of_char c :: nat) \<and> (of_char c :: nat) \<le> 57)"

definition digit_val :: "char \<Rightarrow> nat" where
  "digit_val c = of_char c - 48"

definition digit_char :: "nat \<Rightarrow> char" where
  "digit_char d = ''0123456789'' ! d"

function show_nat :: "nat \<Rightarrow> string" where
  "show_nat n = (if n < 10 then [digit_char n]
                 else show_nat (n div 10) @ [digit_char (n mod 10)])"
  by pat_completeness auto
termination
  by (relation "measure id") auto

declare show_nat.simps [simp del]

definition int_of_digits :: "string \<Rightarrow> nat" where
  "int_of_digits ds = foldl (\<lambda>acc c. 10 * acc + digit_val c) 0 ds"

subsection \<open>The two fixed regular expressions of the source\<close>

text \<open>
  \<^verbatim>\<open>re.search("\(UID (\d+)\)", uid_text)\<close>: the leftmost position at which the text reads
  \<open>(UID\<close>, a blank, a maximal non-empty run of digits and \<open>)\<close>.  (A shorter run of digits
  cannot be followed by \<open>)\<close>, so backtracking never helps.)  The result is group 1 converted
  by \<^verbatim>\<open>int\<close>; \<open>None\<close> is Python's \<^verbatim>\<open>None\<close>, on which \<^verbatim>\<open>.group\<close> raises.
\<close>

definition uid_here :: "string \<Rightarrow> nat option" where
  "uid_here s =
     (if take 5 s = ''(UID '' then
        (let ds = takeWhile is_digit (drop 5 s);
             rest = dropWhile is_digit (drop 5 s)
         in if ds \<noteq> [] \<and> take 1 rest = '')'' then Some (int_of_digits ds) else None)
      else None)"

fun search_uid :: "string \<Rightarrow> nat option" where
  "search_uid [] = None"
| "search_uid (c # cs) =
     (case uid_here (c # cs) of Some n \<Rightarrow> Some n | None \<Rightarrow> search_uid cs)"

text \<open>
  \<^verbatim>\<open>folder_re = re.compile(r'\(.*?\) "(?P<sep>.*)" (?P<name>.*)')\<close>, used with
  \<^verbatim>\<open>match\<close> (anchored at the start).  No \<open>.\<close> crosses a newline, so the match lives in
  the first line.  The lazy \<open>.*?\<close> stops at the first \<open>) "\<close> (a later one leaves only a
  suffix of what the first leaves, so it cannot succeed where the first fails); the greedy
  \<open>sep\<close> group runs to the last \<open>" \<close> of the remainder and \<open>name\<close> takes the rest.
  The result is \<^verbatim>\<open>groups()\<close>, that is \<open>(sep, name)\<close>.
\<close>

definition folder_re_match :: "string \<Rightarrow> (string \<times> string) option" where
  "folder_re_match s =
     (case takeWhile (\<lambda>c. c \<noteq> newline) s of
        [] \<Rightarrow> None
      | c # line \<Rightarrow>
          if c \<noteq> CHR ''('' then None
          else (case split_first [CHR '')'', CHR '' '', dquote] line of
                  None \<Rightarrow> None
                | Some (attrs, r) \<Rightarrow> split_last [dquote, CHR '' ''] r))"

section \<open>Exceptions, the library boundary and the handler object\<close>

text \<open>
  The exception classes that can cross \<^verbatim>\<open>check\<close>.  \<open>Abort\<close> is
  \<^verbatim>\<open>imaplib.IMAP4.abort\<close> (with its subclass \<^verbatim>\<open>readonly\<close>), \<open>SslError c\<close> is
  \<^verbatim>\<open>socket.sslerror\<close> with \<^verbatim>\<open>e[0] = c\<close>, \<open>ImapError\<close> is an \<^verbatim>\<open>imaplib.IMAP4.error\<close> that
  is no abort (a protocol-level failure), \<open>SocketError\<close> is any other
  \<^verbatim>\<open>socket.error\<close>.  \<open>AttributeError\<close> is what \<^verbatim>\<open>.group\<close> or \<^verbatim>\<open>.groups\<close> raises on the
  \<^verbatim>\<open>None\<close> of a failed regular-expression match (the specification calls it
  \<open>ParseError\<close>).  \<open>Other name\<close> is any further class.
\<close>

datatype exn =
    Abort
  | SslError int
  | ImapError
  | SocketError
  | AttributeError
  | KeyError
  | IndexError
  | ValueError
  | TypeError
  | Other string

text \<open>
  Everything outside the file (the IMAP server behind \<^verbatim>\<open>imaplib\<close>, the Kerberos library,
  the base64 codec) is a parameter.  Each library call is recorded as a \<open>request\<close>; the
  environment answers as a function of the whole history of requests, the newest first,
  which is as general as a deterministic outside world can be.
\<close>

datatype request =
    Connect string nat bool
  | Login string string
  | Authenticate string
  | AuthReply string
  | ListFolders
  | Select string
  | Search nat
  | FetchHeader string
  | FetchUid string
  | KrbInit string
  | KrbStep nat string
  | KrbUnwrap nat string
  | KrbWrap nat string string
  | KrbResponse nat

text \<open>One element of the data of a \<^verbatim>\<open>fetch\<close>: a pair, or a bare string such as \<open>)\<close>.\<close>

datatype entry = Tup string string | Str string

text \<open>
  The environment.  Every function takes the history with the current request at its head.
  \<open>failure\<close> is the exception the call raises, if any; otherwise the call returns the
  reply of its kind: the data part \<open>[1]\<close> of \<^verbatim>\<open>list\<close>, \<^verbatim>\<open>search\<close> and the UID \<^verbatim>\<open>fetch\<close>
  (\<open>reply_strings\<close>) and of the header \<^verbatim>\<open>fetch\<close> (\<open>reply_fetch\<close>), the pair that \<^verbatim>\<open>select\<close>
  returns (\<open>reply_select\<close>), the challenges the server sends during an authentication
  exchange, the return code (\<open>krb_rc\<close>) and the response text (\<open>krb_text\<close>) of the Kerberos
  library.  \<open>have_kerberos_gss\<close> is the module flag \<^verbatim>\<open>HAVE_KERBEROS_GSS\<close>; the last two
  fields are the base64 codec, whose decoder may reject its input.
\<close>

record env =
  failure :: "request list \<Rightarrow> exn option"
  reply_strings :: "request list \<Rightarrow> string list"
  reply_select :: "request list \<Rightarrow> string \<times> string list"
  reply_fetch :: "request list \<Rightarrow> entry list"
  challenges :: "request list \<Rightarrow> string list"
  krb_rc :: "request list \<Rightarrow> int"
  krb_text :: "request list \<Rightarrow> string option"
  have_kerberos_gss :: bool
  b64encode :: "string \<Rightarrow> string"
  b64decode :: "string \<Rightarrow> string option"

text \<open>
  The session object \<^verbatim>\<open>self.imap\<close>: what it was connected with.  \<open>s_ssl\<close> is
  \<^verbatim>\<open>isinstance(self.imap, imaplib.IMAP4_SSL)\<close>.
\<close>

record session =
  s_host :: string
  s_port :: nat
  s_ssl :: bool

text \<open>A parsed message header with the fields set on it after parsing.\<close>

record header =
  raw :: string
  tags :: "(string \<times> string) list"

text \<open>
  The attributes of an \<^verbatim>\<open>EmailHandler\<close>.  \<open>include_re\<close> and \<open>exclude_re\<close> are the
  compiled patterns, each represented by the truth value of its \<^verbatim>\<open>search\<close> method.
  UIDs are parsed from digit strings, hence natural numbers.  \<open>gss_vc\<close> is \<^verbatim>\<open>None\<close> or a
  Kerberos context, named by the moment of its creation.
\<close>

record handler =
  server :: string
  port :: nat
  imap :: session
  gss_step :: nat
  gss_vc :: "nat option"
  gssapi :: bool
  username :: string
  password :: string
  include_re :: "string \<Rightarrow> bool"
  exclude_re :: "string \<Rightarrow> bool"
  last_uid :: "string \<rightharpoonup> nat"

text \<open>The state of a run: the handler object and the history of the environment.\<close>

record st =
  self :: handler
  history :: "request list"

text \<open>
  An operation returns a value or raises an exception, and leaves a state either way.
\<close>

type_synonym 'a io = "st \<Rightarrow> (exn + 'a) \<times> st"

definition return :: "'a \<Rightarrow> 'a io" where
  "return v s = (Inr v, s)"

definition raise :: "exn \<Rightarrow> 'a io" where
  "raise e s = (Inl e, s)"

definition bind :: "'a io \<Rightarrow> ('a \<Rightarrow> 'b io) \<Rightarrow> 'b io" where
  "bind m f s = (case m s of (Inl e, s') \<Rightarrow> (Inl e, s') | (Inr v, s') \<Rightarrow> f v s')"

definition get :: "(handler \<Rightarrow> 'a) \<Rightarrow> 'a io" where
  "get field s = (Inr (field (self s)), s)"

definition modify :: "(handler \<Rightarrow> handler) \<Rightarrow> unit io" where
  "modify f s = (Inr (), s\<lparr>self := f (self s)\<rparr>)"

text \<open>A library call: record the request, then raise or return what the environment says.\<close>

definition call :: "env \<Rightarrow> request \<Rightarrow> (request list \<Rightarrow> 'a) \<Rightarrow> 'a io" where
  "call E r answer s =
     (let h = r # history s in
      case failure E h of
        Some e \<Rightarrow> (Inl e, s\<lparr>history := h\<rparr>)
      | None \<Rightarrow> (Inr (answer h), s\<lparr>history := h\<rparr>))"

subsection \<open>The imaplib calls the handler makes\<close>

text \<open>Default ports of \<^verbatim>\<open>imaplib\<close>: \<^verbatim>\<open>IMAP4_PORT\<close> and \<^verbatim>\<open>IMAP4_SSL_PORT\<close>.\<close>

definition IMAP4_PORT :: nat where
  "IMAP4_PORT = 143"

definition IMAP4_SSL_PORT :: nat where
  "IMAP4_SSL_PORT = 993"

text \<open>
  \<^verbatim>\<open>imaplib.IMAP4(host, port)\<close> and \<^verbatim>\<open>imaplib.IMAP4_SSL(host, port)\<close>; the port argument
  is optional and defaults to the constant above.
\<close>

definition IMAP4 :: "env \<Rightarrow> string \<Rightarrow> nat option \<Rightarrow> session io" where
  "IMAP4 E host p =
     (let q = (case p of None \<Rightarrow> IMAP4_PORT | Some n \<Rightarrow> n)
      in call E (Connect host q False) (\<lambda>_. \<lparr>s_host = host, s_port = q, s_ssl = False\<rparr>))"

definition IMAP4_SSL :: "env \<Rightarrow> string \<Rightarrow> nat option \<Rightarrow> session io" where
  "IMAP4_SSL E host p =
     (let q = (case p of None \<Rightarrow> IMAP4_SSL_PORT | Some n \<Rightarrow> n)
      in call E (Connect host q True) (\<lambda>_. \<lparr>s_host = host, s_port = q, s_ssl = True\<rparr>))"

definition imap_login :: "env \<Rightarrow> string \<Rightarrow> string \<Rightarrow> unit io" where
  "imap_login E u p = call E (Login u p) (\<lambda>_. ())"

definition imap_list :: "env \<Rightarrow> string list io" where
  "imap_list E = call E ListFolders (reply_strings E)"

definition imap_select :: "env \<Rightarrow> string \<Rightarrow> (string \<times> string list) io" where
  "imap_select E folder = call E (Select folder) (reply_select E)"

text \<open>\<^verbatim>\<open>search(None, 'UNSEEN', "(UID %d:99999999)" % lo)[1]\<close>.\<close>

definition imap_search :: "env \<Rightarrow> nat \<Rightarrow> string list io" where
  "imap_search E lo = call E (Search lo) (reply_strings E)"

text \<open>\<^verbatim>\<open>fetch(indices, "(BODY[HEADER])")[1]\<close> and \<^verbatim>\<open>fetch(msgid, "UID")[1]\<close>.\<close>

definition imap_fetch_header :: "env \<Rightarrow> string \<Rightarrow> entry list io" where
  "imap_fetch_header E indices = call E (FetchHeader indices) (reply_fetch E)"

definition imap_fetch_uid :: "env \<Rightarrow> string \<Rightarrow> string list io" where
  "imap_fetch_uid E msgid = call E (FetchUid msgid) (reply_strings E)"

section \<open>EmailHandler\<close>

subsection \<open>get_folders\<close>

text \<open>
  Line 76: \<^verbatim>\<open>match[1].strip('"').replace(match[0], "/")\<close>, where \<^verbatim>\<open>match[0]\<close> is the
  separator group and \<^verbatim>\<open>match[1]\<close> the name group.
\<close>

definition canonical_folder :: "string \<times> string \<Rightarrow> string" where
  "canonical_folder m = replace (fst m) ''/'' (strip dquote (snd m))"

text \<open>
  The list comprehension of line 74 raises at the first descriptor that \<open>folder_re\<close> does
  not match (\<^verbatim>\<open>None.groups()\<close>); nothing has been changed by then.  The filter of line 77
  keeps a folder iff include finds a match and exclude finds none.
\<close>

definition get_folders :: "env \<Rightarrow> string list io" where
  "get_folders E =
     bind (imap_list E) (\<lambda>descriptors.
       case those (map folder_re_match descriptors) of
         None \<Rightarrow> raise AttributeError
       | Some matches \<Rightarrow>
           bind (get include_re) (\<lambda>inc.
           bind (get exclude_re) (\<lambda>exc.
             return (filter (\<lambda>folder. inc folder \<and> \<not> exc folder)
                       (map canonical_folder matches)))))"

subsection \<open>set_last_uids\<close>

definition set_mark :: "string \<Rightarrow> nat \<Rightarrow> handler \<Rightarrow> handler" where
  "set_mark folder u h = h\<lparr>last_uid := (last_uid h)(folder \<mapsto> u)\<rparr>"

text \<open>The body of the loop of lines 56 to 65; \<^verbatim>\<open>continue\<close> is \<open>return ()\<close>.\<close>

definition init_folder :: "env \<Rightarrow> string \<Rightarrow> unit io" where
  "init_folder E folder =
     (if contains ''[Gmail]'' folder then return ()
      else
        bind (imap_select E folder) (\<lambda>selection.
          if fst selection = ''NO'' then return ()
          else
            (case snd selection of
               [] \<Rightarrow> raise IndexError
             | last_msgid # _ \<Rightarrow>
                 if last_msgid = ''0'' then modify (set_mark folder 0)
                 else
                   bind (imap_fetch_uid E last_msgid) (\<lambda>data.
                     case data of
                       [] \<Rightarrow> raise IndexError
                     | uid_text # _ \<Rightarrow>
                         (case search_uid uid_text of
                            None \<Rightarrow> raise AttributeError
                          | Some u \<Rightarrow> modify (set_mark folder u))))))"

fun set_last_uids_loop :: "env \<Rightarrow> string list \<Rightarrow> unit io" where
  "set_last_uids_loop E [] = return ()"
| "set_last_uids_loop E (folder # rest) =
     bind (init_folder E folder) (\<lambda>_. set_last_uids_loop E rest)"

definition set_last_uids :: "env \<Rightarrow> unit io" where
  "set_last_uids E =
     bind (modify (\<lambda>h. h\<lparr>last_uid := Map.empty\<rparr>)) (\<lambda>_.
     bind (get_folders E) (set_last_uids_loop E))"

subsection \<open>check: the loop over the folders\<close>

definition message_from_string :: "string \<Rightarrow> header" where
  "message_from_string x = \<lparr>raw = x, tags = []\<rparr>"

text \<open>\<^verbatim>\<open>new_header["folder"] = folder\<close> appends a field to the message.\<close>

definition tag_folder :: "string \<Rightarrow> header \<Rightarrow> header" where
  "tag_folder folder m = m\<lparr>tags := tags m @ [(''folder'', folder)]\<rparr>"

text \<open>
  Line 101: the entries equal to \<open>)\<close> are dropped and \<^verbatim>\<open>x[1]\<close> is taken of the others: the
  second component of a pair, the second character of a bare string, \<^verbatim>\<open>IndexError\<close> if the
  string is too short.  The first failing entry ends the comprehension.
\<close>

fun payloads :: "entry list \<Rightarrow> exn + string list" where
  "payloads [] = Inr []"
| "payloads (x # xs) =
     (if x = Str '')'' then payloads xs
      else
        (case (case x of
                 Tup a b \<Rightarrow> Inr b
               | Str t \<Rightarrow> if 1 < length t then Inr [t ! 1] else Inl IndexError) of
           Inl e \<Rightarrow> Inl e
         | Inr p \<Rightarrow> (case payloads xs of Inl e \<Rightarrow> Inl e | Inr ps \<Rightarrow> Inr (p # ps))))"

text \<open>
  The body of the loop of lines 89 to 107, from the headers collected so far to the headers
  collected after this folder.  \<^verbatim>\<open>self.last_uid[folder]\<close> is evaluated before the search is
  sent and raises \<^verbatim>\<open>KeyError\<close> on a folder without an entry.  The unpacking
  \<^verbatim>\<open>response, [nmesgs] = ...\<close> raises \<^verbatim>\<open>ValueError\<close> unless the data has exactly one element.
\<close>

definition check_folder :: "env \<Rightarrow> string \<Rightarrow> header list \<Rightarrow> header list io" where
  "check_folder E folder headers =
     (if contains ''[Gmail]'' folder then return headers
      else
        bind (imap_select E folder) (\<lambda>(response, data).
          case data of
            [nmesgs] \<Rightarrow>
              if response = ''NO'' then return headers
              else
                bind (get last_uid) (\<lambda>marks.
                  case marks folder of
                    None \<Rightarrow> raise KeyError
                  | Some mark \<Rightarrow>
                      bind (imap_search E (mark + 1)) (\<lambda>new.
                        if new = [''''] then return headers
                        else
                          (case new of
                             [] \<Rightarrow> raise IndexError
                           | ids # _ \<Rightarrow>
                               bind (imap_fetch_header E (replace '' '' '','' ids)) (\<lambda>entries.
                                 case payloads entries of
                                   Inl e \<Rightarrow> raise e
                                 | Inr texts \<Rightarrow>
                                     bind (imap_fetch_uid E nmesgs) (\<lambda>uid_data.
                                       case uid_data of
                                         [] \<Rightarrow> raise IndexError
                                       | uid_text # _ \<Rightarrow>
                                           (case search_uid uid_text of
                                              None \<Rightarrow> raise AttributeError
                                            | Some u \<Rightarrow>
                                                bind (modify (set_mark folder u)) (\<lambda>_.
                                                  return
                                                    (headers @
                                                     map (\<lambda>x. tag_folder folder
                                                                  (message_from_string x))
                                                       texts))))))))
          | _ \<Rightarrow> raise ValueError))"

fun check_loop :: "env \<Rightarrow> string list \<Rightarrow> header list \<Rightarrow> header list io" where
  "check_loop E [] headers = return headers"
| "check_loop E (folder # rest) headers =
     bind (check_folder E folder headers) (check_loop E rest)"

text \<open>The \<^verbatim>\<open>try\<close> block of lines 88 to 107.\<close>

definition check_body :: "env \<Rightarrow> header list io" where
  "check_body E = bind (get_folders E) (\<lambda>folders. check_loop E folders [])"

subsection \<open>gssauth and authentication\<close>

definition GSS_STATE_STEP :: nat where
  "GSS_STATE_STEP = 0"

definition GSS_STATE_WRAP :: nat where
  "GSS_STATE_WRAP = 1"

text \<open>\<^verbatim>\<open>kerberos.AUTH_GSS_CONTINUE\<close>.\<close>

definition AUTH_GSS_CONTINUE :: int where
  "AUTH_GSS_CONTINUE = 0"

text \<open>Passing \<^verbatim>\<open>None\<close> where the Kerberos library wants a context raises \<^verbatim>\<open>TypeError\<close>.\<close>

definition krb_ctx :: "nat option \<Rightarrow> nat io" where
  "krb_ctx vc = (case vc of None \<Rightarrow> raise TypeError | Some c \<Rightarrow> return c)"

text \<open>
  Lines 143 to 151.  A context created by \<^verbatim>\<open>authGSSClientInit\<close> is named by the length of
  the history at its creation, so two creations never give the same context.
\<close>

definition gss_do_step :: "env \<Rightarrow> string \<Rightarrow> unit io" where
  "gss_do_step E data =
     bind (get gss_vc) (\<lambda>vc.
     bind (case vc of
             Some _ \<Rightarrow> return ()
           | None \<Rightarrow>
               bind (get server) (\<lambda>host.
               bind (call E (KrbInit (''imap@'' @ host)) length) (\<lambda>c.
               bind (modify (\<lambda>h. h\<lparr>gss_vc := Some c\<rparr>)) (\<lambda>_.
               bind (call E (KrbResponse c) (krb_text E)) (\<lambda>_. return ())))))
       (\<lambda>_.
     bind (get gss_vc) (\<lambda>vc'.
     bind (krb_ctx vc') (\<lambda>c.
     bind (call E (KrbStep c data) (krb_rc E)) (\<lambda>rc.
       if rc \<noteq> AUTH_GSS_CONTINUE then modify (\<lambda>h. h\<lparr>gss_step := GSS_STATE_WRAP\<rparr>)
       else return ())))))"

text \<open>Lines 152 to 156.\<close>

definition gss_do_wrap :: "env \<Rightarrow> string \<Rightarrow> unit io" where
  "gss_do_wrap E data =
     bind (get gss_vc) (\<lambda>vc.
     bind (krb_ctx vc) (\<lambda>c.
     bind (call E (KrbUnwrap c data) (\<lambda>_. ())) (\<lambda>_.
     bind (call E (KrbResponse c) (krb_text E)) (\<lambda>response.
     bind (get username) (\<lambda>u.
       case response of
         None \<Rightarrow> raise TypeError
       | Some r \<Rightarrow> call E (KrbWrap c r u) (\<lambda>_. ()))))))"

definition gssauth :: "env \<Rightarrow> string \<Rightarrow> string io" where
  "gssauth E response =
     (if \<not> have_kerberos_gss E then raise ValueError
      else
        bind (get gss_step) (\<lambda>step.
        bind (if step = GSS_STATE_STEP then gss_do_step E (b64encode E response)
              else if step = GSS_STATE_WRAP then gss_do_wrap E (b64encode E response)
              else return ()) (\<lambda>_.
        bind (get gss_vc) (\<lambda>vc.
        bind (krb_ctx vc) (\<lambda>c.
        bind (call E (KrbResponse c) (krb_text E)) (\<lambda>response'.
          case b64decode E (case response' of None \<Rightarrow> [] | Some t \<Rightarrow> t) of
            None \<Rightarrow> raise (Other ''binascii.Error'')
          | Some d \<Rightarrow> return d))))))"

text \<open>
  \<^verbatim>\<open>self.imap.authenticate('GSSAPI', self.gssauth)\<close>: the library sends the command and
  calls the callback once for every challenge of the server, sending each answer back.
\<close>

fun answer_challenges :: "env \<Rightarrow> string list \<Rightarrow> unit io" where
  "answer_challenges E [] = return ()"
| "answer_challenges E (c # cs) =
     bind (gssauth E c) (\<lambda>r.
     bind (call E (AuthReply r) (\<lambda>_. ())) (\<lambda>_. answer_challenges E cs))"

definition imap_authenticate :: "env \<Rightarrow> string \<Rightarrow> unit io" where
  "imap_authenticate E mech = bind (call E (Authenticate mech) (challenges E)) (answer_challenges E)"

subsection \<open>check and its recovery\<close>

text \<open>Lines 117 to 124: a fresh session to \<^verbatim>\<open>self.server\<close> alone, then authentication.\<close>

definition recover :: "env \<Rightarrow> unit io" where
  "recover E =
     bind (get imap) (\<lambda>old.
     bind (get server) (\<lambda>host.
     bind (if s_ssl old then IMAP4_SSL E host None else IMAP4 E host None) (\<lambda>new.
     bind (modify (\<lambda>h. h\<lparr>imap := new\<rparr>)) (\<lambda>_.
     bind (get gssapi) (\<lambda>g.
       if g then imap_authenticate E ''GSSAPI''
       else bind (get username) (\<lambda>u. bind (get password) (\<lambda>p. imap_login E u p)))))))"

text \<open>The classes named by the \<^verbatim>\<open>except\<close> clause of line 109, and the test of line 114.\<close>

definition caught :: "exn \<Rightarrow> bool" where
  "caught e = (case e of Abort \<Rightarrow> True | SslError _ \<Rightarrow> True | _ \<Rightarrow> False)"

definition reraised :: "exn \<Rightarrow> bool" where
  "reraised e = (case e of SslError c \<Rightarrow> c \<noteq> 8 | _ \<Rightarrow> False)"

text \<open>
  \<^verbatim>\<open>check\<close> calls itself after every recovery (line 132), so it need not return.  The
  first argument bounds the depth of that recursion; \<open>None\<close> means the bound was too
  small for the call to return.
\<close>

fun check :: "nat \<Rightarrow> env \<Rightarrow> st \<Rightarrow> ((exn + header list) \<times> st) option" where
  "check 0 E s = None"
| "check (Suc n) E s =
     (case check_body E s of
        (Inr headers, s1) \<Rightarrow> Some (Inr headers, s1)
      | (Inl e, s1) \<Rightarrow>
          if \<not> caught e \<or> reraised e then Some (Inl e, s1)
          else
            (case recover E s1 of
               (Inl e', s2) \<Rightarrow> Some (Inl e', s2)
             | (Inr _, s2) \<Rightarrow> check n E s2))"

subsection \<open>The constructor\<close>

text \<open>
  Lines 24 to 47.  \<open>hist\<close> is the history of the environment before the call.  The
  attributes are written into the record at once; before the connection is made
  \<open>imap\<close> holds the session about to be opened.  A constructor that raises leaves no object.
\<close>

definition init ::
  "env \<Rightarrow> string \<Rightarrow> string \<Rightarrow> string \<Rightarrow> nat option \<Rightarrow> bool \<Rightarrow> (string \<Rightarrow> bool) \<Rightarrow>
   (string \<Rightarrow> bool) \<Rightarrow> bool \<Rightarrow> request list \<Rightarrow> exn + st" where
  "init E host user pass port_arg use_ssl inc exc use_gssapi hist =
     (let p = (case port_arg of
                 None \<Rightarrow> if use_ssl then 993 else 143
               | Some n \<Rightarrow> if n = 0 then (if use_ssl then 993 else 143) else n);
          h0 = \<lparr>server = host, port = p,
                imap = \<lparr>s_host = host, s_port = p, s_ssl = use_ssl\<rparr>,
                gss_step = 0, gss_vc = None, gssapi = use_gssapi,
                username = user, password = pass,
                include_re = inc, exclude_re = exc, last_uid = Map.empty\<rparr>
      in case bind (if use_ssl then IMAP4_SSL E host (Some p) else IMAP4 E host (Some p))
                (\<lambda>new.
              bind (modify (\<lambda>h. h\<lparr>imap := new\<rparr>)) (\<lambda>_.
              bind (if use_gssapi then imap_authenticate E ''GSSAPI''
                    else imap_login E user pass) (\<lambda>_.
              set_last_uids E)))
                \<lparr>self = h0, history = hist\<rparr> of
           (Inl e, _) \<Rightarrow> Inl e
         | (Inr _, s) \<Rightarrow> Inr s)"

section \<open>A mail store as environment\<close>

text \<open>
  The claims about unseen messages and their UIDs speak of the state of the server.  This
  environment answers from a fixed mail store the way the session adapter of the
  specification is described: \<open>select\<close> reports the number of messages of a folder or
  \<open>NO\<close>; the unseen search returns the sequence numbers of the unseen messages whose UID
  lies between its lower bound and 99999999; \<open>fetch\<close> returns the header text, followed by
  the stray \<open>)\<close>, or the envelope \<open>n (UID u)\<close>.  The folders are opened read-only, so
  nothing the handler does changes the store.  \<open>faults t\<close> is the exception, if any, that
  the transport raises at the request number \<open>t\<close>.
\<close>

record mail =
  m_uid :: nat
  m_seen :: bool
  m_text :: string

record mailstore =
  listing :: "string list"
  boxes :: "string \<rightharpoonup> mail list"

text \<open>
  The folder a history has selected: the one of the latest \<^verbatim>\<open>select\<close> if that was answered
  with success, none after a new connection.
\<close>

fun selected :: "mailstore \<Rightarrow> (nat \<Rightarrow> exn option) \<Rightarrow> request list \<Rightarrow> string option" where
  "selected w F [] = None"
| "selected w F (Select f # rs) =
     (if F (length rs) = None \<and> boxes w f \<noteq> None then Some f else None)"
| "selected w F (Connect a b c # rs) = None"
| "selected w F (r # rs) = selected w F rs"

definition selected_box :: "mailstore \<Rightarrow> (nat \<Rightarrow> exn option) \<Rightarrow> request list \<Rightarrow> mail list option" where
  "selected_box w F rs = (case selected w F rs of None \<Rightarrow> None | Some f \<Rightarrow> boxes w f)"

text \<open>Sequence numbers (from 1) of the unseen messages with UID in \<open>lo .. 99999999\<close>.\<close>

definition hits :: "nat \<Rightarrow> mail list \<Rightarrow> nat list" where
  "hits lo ms =
     map fst (filter (\<lambda>(i, m). \<not> m_seen m \<and> lo \<le> m_uid m \<and> m_uid m \<le> 99999999)
                (zip [1 ..< Suc (length ms)] ms))"

fun join_sp :: "string list \<Rightarrow> string" where
  "join_sp [] = []"
| "join_sp [x] = x"
| "join_sp (x # y # zs) = x @ '' '' @ join_sp (y # zs)"

fun split_commas :: "string \<Rightarrow> string list" where
  "split_commas [] = [[]]"
| "split_commas (c # cs) =
     (if c = CHR '','' then [] # split_commas cs
      else (case split_commas cs of [] \<Rightarrow> [[c]] | p # ps \<Rightarrow> (c # p) # ps))"

text \<open>A message number of the client: a decimal numeral within \<open>1 .. length ms\<close>.\<close>

definition msg_number :: "mail list \<Rightarrow> string \<Rightarrow> nat option" where
  "msg_number ms n =
     (if n \<noteq> [] \<and> list_all is_digit n \<and> 1 \<le> int_of_digits n \<and> int_of_digits n \<le> length ms
      then Some (int_of_digits n) else None)"

text \<open>
  The data of a header fetch for a comma-separated list of message numbers: for each
  message a pair that ends in its header text, then the closing \<open>)\<close>.
\<close>

definition header_entries :: "mail list \<Rightarrow> string \<Rightarrow> entry list" where
  "header_entries ms indices =
     concat (map (\<lambda>n. case msg_number ms n of
                         None \<Rightarrow> []
                       | Some i \<Rightarrow>
                           [Tup (show_nat i @ '' (BODY[HEADER]'') (m_text (ms ! (i - 1))),
                            Str '')''])
               (split_commas indices))"

definition uid_envelope :: "mail list \<Rightarrow> nat \<Rightarrow> string" where
  "uid_envelope ms i = show_nat i @ '' (UID '' @ show_nat (m_uid (ms ! (i - 1))) @ '')''"

text \<open>
  The answers.  Besides the faults of the transport, a search or fetch without a selected
  folder and a UID fetch of a message number that does not exist are refused by the server,
  which \<^verbatim>\<open>imaplib\<close> reports as an error.
\<close>

definition mb_failure :: "mailstore \<Rightarrow> (nat \<Rightarrow> exn option) \<Rightarrow> request list \<Rightarrow> exn option" where
  "mb_failure w F h =
     (case h of
        [] \<Rightarrow> None
      | r # rs \<Rightarrow>
          (case F (length rs) of
             Some e \<Rightarrow> Some e
           | None \<Rightarrow>
               (case r of
                  Search lo \<Rightarrow> if selected_box w F rs = None then Some ImapError else None
                | FetchHeader x \<Rightarrow> if selected_box w F rs = None then Some ImapError else None
                | FetchUid n \<Rightarrow>
                    (case selected_box w F rs of
                       None \<Rightarrow> Some ImapError
                     | Some ms \<Rightarrow> if msg_number ms n = None then Some ImapError else None)
                | _ \<Rightarrow> None)))"

definition mb_strings :: "mailstore \<Rightarrow> (nat \<Rightarrow> exn option) \<Rightarrow> request list \<Rightarrow> string list" where
  "mb_strings w F h =
     (case h of
        ListFolders # rs \<Rightarrow> listing w
      | Search lo # rs \<Rightarrow>
          (case selected_box w F rs of
             None \<Rightarrow> []
           | Some ms \<Rightarrow> [join_sp (map show_nat (hits lo ms))])
      | FetchUid n # rs \<Rightarrow>
          (case selected_box w F rs of
             None \<Rightarrow> []
           | Some ms \<Rightarrow> (case msg_number ms n of None \<Rightarrow> [] | Some i \<Rightarrow> [uid_envelope ms i]))
      | _ \<Rightarrow> [])"

definition mb_select :: "mailstore \<Rightarrow> request list \<Rightarrow> string \<times> string list" where
  "mb_select w h =
     (case h of
        Select f # rs \<Rightarrow>
          (case boxes w f of
             None \<Rightarrow> (''NO'', [''Mailbox does not exist''])
           | Some ms \<Rightarrow> (''OK'', [show_nat (length ms)]))
      | _ \<Rightarrow> (''BAD'', []))"

definition mb_fetch :: "mailstore \<Rightarrow> (nat \<Rightarrow> exn option) \<Rightarrow> request list \<Rightarrow> entry list" where
  "mb_fetch w F h =
     (case h of
        FetchHeader indices # rs \<Rightarrow>
          (case selected_box w F rs of None \<Rightarrow> [] | Some ms \<Rightarrow> header_entries ms indices)
      | _ \<Rightarrow> [])"

definition mailbox_env :: "mailstore \<Rightarrow> (nat \<Rightarrow> exn option) \<Rightarrow> env" where
  "mailbox_env w F =
     \<lparr>failure = mb_failure w F,
      reply_strings = mb_strings w F,
      reply_select = mb_select w,
      reply_fetch = mb_fetch w F,
      challenges = (\<lambda>_. []),
      krb_rc = (\<lambda>_. 1),
      krb_text = (\<lambda>_. None),
      have_kerberos_gss = False,
      b64encode = (\<lambda>x. x),
      b64decode = Some\<rparr>"

text \<open>UIDs grow strictly with the sequence number, as IMAP assigns them.\<close>

definition uids_ascending :: "mailstore \<Rightarrow> bool" where
  "uids_ascending w = (\<forall>f ms. boxes w f = Some ms \<longrightarrow> sorted_wrt (<) (map m_uid ms))"

definition no_faults :: "nat \<Rightarrow> exn option" where
  "no_faults t = None"

section \<open>The filter patterns\<close>

text \<open>
  \<^verbatim>\<open>re.compile(pattern, re.I)\<close> for the patterns built from literal characters, \<open>.\<close>,
  \<open>.*\<close>, \<open>^\<close> and \<open>$\<close>: the default arguments \<open>.*\<close> and \<open>^$\<close> and anchored
  folder names.  Any other metacharacter is outside this fragment (\<open>None\<close>).
\<close>

datatype atom = Bol | Eol | AnyChar | AnyStar | Lit char

definition metachar :: "char \<Rightarrow> bool" where
  "metachar c = (c \<in> set ''^$.*+?()[]{}|'' \<or> c = CHR 0x5C)"

fun re_compile :: "string \<Rightarrow> atom list option" where
  "re_compile [] = Some []"
| "re_compile (c # cs) =
     (if c = CHR ''.'' \<and> take 1 cs = ''*'' then map_option (Cons AnyStar) (re_compile (drop 1 cs))
      else if c = CHR ''.'' then map_option (Cons AnyChar) (re_compile cs)
      else if c = CHR ''^'' then map_option (Cons Bol) (re_compile cs)
      else if c = CHR ''$'' then map_option (Cons Eol) (re_compile cs)
      else if metachar c then None
      else map_option (Cons (Lit c)) (re_compile cs))"

text \<open>\<^verbatim>\<open>re.I\<close>: ASCII letters are compared without case.\<close>

definition lower :: "char \<Rightarrow> char" where
  "lower c =
     (case map_of (zip ''ABCDEFGHIJKLMNOPQRSTUVWXYZ'' ''abcdefghijklmnopqrstuvwxyz'') c of
        None \<Rightarrow> c
      | Some l \<Rightarrow> l)"

text \<open>
  Does the pattern match at the head of the subject?  The flag says whether the head of
  the subject is its start.  \<open>$\<close> matches at the end and before a final newline; \<open>.\<close>
  matches any character but a newline.
\<close>

fun match_here :: "atom list \<Rightarrow> bool \<Rightarrow> string \<Rightarrow> bool" where
  "match_here [] b s = True"
| "match_here (Bol # p) b s = (b \<and> match_here p b s)"
| "match_here (Eol # p) b s = ((s = [] \<or> s = [newline]) \<and> match_here p b s)"
| "match_here (AnyChar # p) b [] = False"
| "match_here (AnyChar # p) b (c # cs) = (c \<noteq> newline \<and> match_here p False cs)"
| "match_here (Lit x # p) b [] = False"
| "match_here (Lit x # p) b (c # cs) = (lower c = lower x \<and> match_here p False cs)"
| "match_here (AnyStar # p) b [] = match_here p b []"
| "match_here (AnyStar # p) b (c # cs) =
     (match_here p b (c # cs) \<or> (c \<noteq> newline \<and> match_here (AnyStar # p) False cs))"

text \<open>\<^verbatim>\<open>pattern.search(s)\<close> as a truth value: a match at some position.\<close>

fun search_from :: "atom list \<Rightarrow> bool \<Rightarrow> string \<Rightarrow> bool" where
  "search_from p b [] = match_here p b []"
| "search_from p b (c # cs) = (match_here p b (c # cs) \<or> search_from p False cs)"

definition re_search :: "atom list \<Rightarrow> string \<Rightarrow> bool" where
  "re_search p s = search_from p True s"

text \<open>
  The folders that \<^verbatim>\<open>check\<close> and \<^verbatim>\<open>set_last_uids\<close> open: those of \<^verbatim>\<open>get_folders\<close>
  that pass the test of lines 57 and 90.
\<close>

definition polled :: "string list \<Rightarrow> string list" where
  "polled folders = filter (\<lambda>folder. \<not> contains ''[Gmail]'' folder) folders"

text \<open>The folders on which a history has issued \<^verbatim>\<open>select\<close>, oldest first.\<close>

definition selects :: "request list \<Rightarrow> string list" where
  "selects h = concat (map (\<lambda>r. case r of Select f \<Rightarrow> [f] | _ \<Rightarrow> []) (rev h))"

section \<open>Notions used by the proofs\<close>

text \<open>An operation keeps an attribute of the handler if it never changes it.\<close>

definition keeps :: "(handler \<Rightarrow> 'a) \<Rightarrow> 'b io \<Rightarrow> bool" where
  "keeps field m = (\<forall>s. field (self (snd (m s))) = field (self s))"

text \<open>
  The port a constructor call without a port argument connects to, and the session that the
  recovery of \<^verbatim>\<open>check\<close> builds.
\<close>

definition default_port :: "bool \<Rightarrow> nat" where
  "default_port ssl = (if ssl then IMAP4_SSL_PORT else IMAP4_PORT)"

definition fresh_session :: "handler \<Rightarrow> session" where
  "fresh_session h = \<lparr>s_host = server h, s_port = default_port (s_ssl (imap h)), s_ssl = s_ssl (imap h)\<rparr>"

subsection \<open>Example data\<close>

text \<open>A folder descriptor as \<^verbatim>\<open>list\<close> returns it: attributes, quoted separator, quoted name.\<close>

definition descriptor :: "string \<Rightarrow> string \<Rightarrow> string" where
  "descriptor sep name =
     CHR ''('' # CHR 0x5C # ''HasNoChildren) '' @ [dquote] @ sep @ [dquote] @ '' '' @
     [dquote] @ name @ [dquote]"

text \<open>
  Two folders: \<open>A\<close> holds a seen message (UID 1) and an unseen one (UID 5), \<open>B\<close> holds an
  unseen message (UID 7).
\<close>

definition store_AB :: mailstore where
  "store_AB =
     \<lparr>listing = [descriptor ''/'' ''A'', descriptor ''/'' ''B''],
      boxes = [''A'' \<mapsto> [\<lparr>m_uid = 1, m_seen = True, m_text = ''Subject: a1''\<rparr>,
                           \<lparr>m_uid = 5, m_seen = False, m_text = ''Subject: a2''\<rparr>],
               ''B'' \<mapsto> [\<lparr>m_uid = 7, m_seen = False, m_text = ''Subject: b1''\<rparr>]]\<rparr>"

text \<open>A handler on that store, connected in the clear, with the given port and marks.\<close>

definition handler_AB :: "nat \<Rightarrow> (string \<rightharpoonup> nat) \<Rightarrow> handler" where
  "handler_AB p marks =
     \<lparr>server = ''mail'', port = p,
      imap = \<lparr>s_host = ''mail'', s_port = p, s_ssl = False\<rparr>,
      gss_step = 0, gss_vc = None, gssapi = False, username = ''user'', password = ''secret'',
      include_re = (\<lambda>_. True), exclude_re = (\<lambda>_. False), last_uid = marks\<rparr>"

text \<open>The transport raises \<open>e\<close> at request number \<open>t\<close> and at no other.\<close>

definition fault_at :: "nat \<Rightarrow> exn \<Rightarrow> nat \<Rightarrow> exn option" where
  "fault_at t e t' = (if t' = t then Some e else None)"

text \<open>An operation only adds requests to the history.\<close>

definition grows :: "'a io \<Rightarrow> bool" where
  "grows m = (\<forall>s. \<exists>pre. history (snd (m s)) = pre @ history s)"

text \<open>
  The two-folder store behind a server that answers every UID fetch with \<open>garbage\<close>, and
  the same listing with folder \<open>B\<close> not to be opened.
\<close>

definition garbage_env :: env where
  "garbage_env =
     (mailbox_env store_AB no_faults)
       \<lparr>reply_strings := (\<lambda>h. case h of
                                FetchUid n # rs \<Rightarrow> [''garbage'']
                              | _ \<Rightarrow> mb_strings store_AB no_faults h)\<rparr>"

definition store_B_closed :: mailstore where
  "store_B_closed = store_AB\<lparr>boxes := (boxes store_AB)(''B'' := None)\<rparr>"

text \<open>
  The folder-filter example: four folders listed with separator \<open>/\<close>, each but the archive
  holding one unseen message, and a handler with include pattern \<open>.*\<close> and exclude pattern
  \<open>^Work$\<close> that has a mark 0 for every folder.
\<close>

definition filter_names :: "string list" where
  "filter_names = [''INBOX'', ''INBOX/Archive'', ''[Gmail]/All Mail'', ''Work'']"

definition store_filter :: mailstore where
  "store_filter =
     \<lparr>listing = map (descriptor ''/'') filter_names,
      boxes = [''INBOX'' \<mapsto> [\<lparr>m_uid = 3, m_seen = False, m_text = ''Subject: i''\<rparr>],
               ''INBOX/Archive'' \<mapsto> [],
               ''[Gmail]/All Mail'' \<mapsto> [\<lparr>m_uid = 9, m_seen = False, m_text = ''Subject: g''\<rparr>],
               ''Work'' \<mapsto> [\<lparr>m_uid = 4, m_seen = False, m_text = ''Subject: w''\<rparr>]]\<rparr>"

definition handler_filter :: handler where
  "handler_filter =
     (handler_AB 143 (map_of (map (\<lambda>f. (f, 0)) filter_names)))
       \<lparr>include_re := re_search (the (re_compile ''.*'')),
        exclude_re := re_search (the (re_compile ''^Work$''))\<rparr>"

text \<open>
  A request that neither creates a Kerberos context nor steps one, and that touches no
  context but \<open>c\<close>.
\<close>

fun stale_only :: "nat \<Rightarrow> request \<Rightarrow> bool" where
  "stale_only c (KrbInit x) = False"
| "stale_only c (KrbStep c' d) = False"
| "stale_only c (KrbUnwrap c' d) = (c' = c)"
| "stale_only c (KrbWrap c' d u) = (c' = c)"
| "stale_only c (KrbResponse c') = (c' = c)"
| "stale_only c r = True"

text \<open>
  The two-folder store behind a server that offers GSSAPI with one challenge per
  exchange, and a handler that has completed an exchange: state \<open>WRAP\<close>, context 7.
\<close>

definition krb_env :: "(nat \<Rightarrow> exn option) \<Rightarrow> env" where
  "krb_env F =
     (mailbox_env store_AB F)
       \<lparr>challenges := (\<lambda>_. [''challenge'']),
        krb_text := (\<lambda>_. Some ''token''),
        have_kerberos_gss := True\<rparr>"

definition handler_gss :: handler where
  "handler_gss =
     (handler_AB 143 [''A'' \<mapsto> 5, ''B'' \<mapsto> 7])
       \<lparr>gssapi := True, gss_step := GSS_STATE_WRAP, gss_vc := Some 7\<rparr>"

subsection \<open>States of the marks relative to a mail store\<close>

text \<open>A folder that the loops open when the server lists it.\<close>

definition wanted :: "handler \<Rightarrow> string \<Rightarrow> bool" where
  "wanted h f = (include_re h f \<and> \<not> exclude_re h f \<and> \<not> contains ''[Gmail]'' f)"

text \<open>
  Every such folder that can be opened has a mark, and none of its unseen messages has a
  UID above it.
\<close>

definition quiet :: "mailstore \<Rightarrow> handler \<Rightarrow> bool" where
  "quiet w h =
     (\<forall>f ms. wanted h f \<longrightarrow> boxes w f = Some ms \<longrightarrow>
        (\<exists>mark. last_uid h f = Some mark \<and> (\<forall>m \<in> set ms. \<not> m_seen m \<longrightarrow> m_uid m \<le> mark)))"

text \<open>The mark of a folder accounts for every message the folder holds.\<close>

definition caught_up :: "mailstore \<Rightarrow> handler \<Rightarrow> string \<Rightarrow> bool" where
  "caught_up w h f =
     (\<exists>ms mark. boxes w f = Some ms \<and> last_uid h f = Some mark \<and>
        (\<forall>m \<in> set ms. m_uid m \<le> mark))"

text \<open>A header that \<^verbatim>\<open>check\<close> has tagged with the folder.\<close>

definition from_folder :: "string \<Rightarrow> header \<Rightarrow> bool" where
  "from_folder f h = ((''folder'', f) \<in> set (tags h))"

text \<open>
  A mail store that changes while the handler works: request number \<open>t\<close> is answered
  from the store \<open>W t\<close>.
\<close>

definition changing_env :: "(nat \<Rightarrow> mailstore) \<Rightarrow> env" where
  "changing_env W =
     \<lparr>failure = (\<lambda>h. mb_failure (W (length h - 1)) no_faults h),
      reply_strings = (\<lambda>h. mb_strings (W (length h - 1)) no_faults h),
      reply_select = (\<lambda>h. mb_select (W (length h - 1)) h),
      reply_fetch = (\<lambda>h. mb_fetch (W (length h - 1)) no_faults h),
      challenges = (\<lambda>_. []),
      krb_rc = (\<lambda>_. 1),
      krb_text = (\<lambda>_. None),
      have_kerberos_gss = False,
      b64encode = (\<lambda>x. x),
      b64decode = Some\<rparr>"

text \<open>
  One folder.  When the handler was constructed (requests 0 to 4) it held the messages with
  UID 1, 2 and 3, so the mark is 3.  Since then the last message has been expunged.  The
  next \<^verbatim>\<open>check\<close> lists the folders (request 5) and opens the folder (request 6); then a
  message with UID 4 arrives, before the search (request 7).
\<close>

definition store_inbox :: "nat list \<Rightarrow> mailstore" where
  "store_inbox uids =
     \<lparr>listing = [descriptor ''/'' ''INBOX''],
      boxes = [''INBOX'' \<mapsto> map (\<lambda>u. \<lparr>m_uid = u, m_seen = False, m_text = ''Subject: m''\<rparr>) uids]\<rparr>"

definition arrival :: "nat \<Rightarrow> mailstore" where
  "arrival t = (if t < 7 then store_inbox [1, 2] else store_inbox [1, 2, 4])"

definition race_state :: st where
  "race_state =
     \<lparr>self = handler_AB 143 [''INBOX'' \<mapsto> 3],
      history = [FetchUid ''3'', Select ''INBOX'', ListFolders, Login ''user'' ''secret'',
                 Connect ''mail'' 143 False]\<rparr>"

text \<open>
  The same with a transport that fails: request number \<open>t\<close> is answered from the store
  \<open>W t\<close> unless \<open>F t\<close> is an exception.
\<close>

definition unstable_env :: "(nat \<Rightarrow> mailstore) \<Rightarrow> (nat \<Rightarrow> exn option) \<Rightarrow> env" where
  "unstable_env W F =
     \<lparr>failure = (\<lambda>h. mb_failure (W (length h - 1)) F h),
      reply_strings = (\<lambda>h. mb_strings (W (length h - 1)) F h),
      reply_select = (\<lambda>h. mb_select (W (length h - 1)) h),
      reply_fetch = (\<lambda>h. mb_fetch (W (length h - 1)) F h),
      challenges = (\<lambda>_. []),
      krb_rc = (\<lambda>_. 1),
      krb_text = (\<lambda>_. None),
      have_kerberos_gss = False,
      b64encode = (\<lambda>x. x),
      b64decode = Some\<rparr>"

text \<open>
  The two-folder store after an unseen message with UID 6 has arrived in \<open>A\<close>, and the
  server on which it arrives when the handler reconnects (request 6).
\<close>

definition store_AB_later :: mailstore where
  "store_AB_later =
     \<lparr>listing = [descriptor ''/'' ''A'', descriptor ''/'' ''B''],
      boxes = [''A'' \<mapsto> [\<lparr>m_uid = 1, m_seen = True, m_text = ''Subject: a1''\<rparr>,
                           \<lparr>m_uid = 5, m_seen = False, m_text = ''Subject: a2''\<rparr>,
                           \<lparr>m_uid = 6, m_seen = False, m_text = ''Subject: a3''\<rparr>],
               ''B'' \<mapsto> [\<lparr>m_uid = 7, m_seen = False, m_text = ''Subject: b1''\<rparr>]]\<rparr>"

definition late_arrival :: "nat \<Rightarrow> mailstore" where
  "late_arrival t = (if t < 6 then store_AB else store_AB_later)"

text \<open>A folder whose last message has UID 4821 and an empty folder.\<close>

definition store_4821 :: mailstore where
  "store_4821 =
     \<lparr>listing = [descriptor ''/'' ''INBOX'', descriptor ''/'' ''Empty''],
      boxes = [''INBOX'' \<mapsto> [\<lparr>m_uid = 17, m_seen = True, m_text = ''Subject: old''\<rparr>,
                               \<lparr>m_uid = 4821, m_seen = True, m_text = ''Subject: last''\<rparr>],
               ''Empty'' \<mapsto> []]\<rparr>"

section \<open>Which attributes an operation can change\<close>

lemmas io_defs = bind_def return_def raise_def get_def modify_def call_def

lemma keepsD: "keeps field m \<Longrightarrow> m s = (r, s') \<Longrightarrow> field (self s') = field (self s)"
  by (auto simp: keeps_def dest: spec [where x = s])

lemma keeps_return [intro!, simp]: "keeps field (return v)"
  by (simp add: keeps_def return_def)

lemma keeps_raise [intro!, simp]: "keeps field (raise e)"
  by (simp add: keeps_def raise_def)

lemma keeps_get [intro!, simp]: "keeps field (get g)"
  by (simp add: keeps_def get_def)

lemma keeps_call [intro!, simp]: "keeps field (call E r a)"
  by (simp add: keeps_def call_def Let_def split: option.splits)

lemma keeps_modify: "(\<And>h. field (g h) = field h) \<Longrightarrow> keeps field (modify g)"
  by (simp add: keeps_def modify_def)

lemma keeps_bind [intro!]: "keeps field m \<Longrightarrow> (\<And>v. keeps field (k v)) \<Longrightarrow> keeps field (bind m k)"
  by (auto simp: keeps_def bind_def split: prod.splits sum.splits)
     (metis snd_conv)+

lemma keeps_krb_ctx [intro!, simp]: "keeps field (krb_ctx vc)"
  by (simp add: krb_ctx_def split: option.splits)

lemma keeps_gssauth:
  assumes "\<And>h v. field (h\<lparr>gss_vc := v\<rparr>) = field h" "\<And>h v. field (h\<lparr>gss_step := v\<rparr>) = field h"
  shows "keeps field (gssauth E c)"
  unfolding gssauth_def gss_do_step_def gss_do_wrap_def
  by (auto intro!: keeps_modify simp: assms split: option.splits)

lemma keeps_answer_challenges:
  assumes "\<And>h v. field (h\<lparr>gss_vc := v\<rparr>) = field h" "\<And>h v. field (h\<lparr>gss_step := v\<rparr>) = field h"
  shows "keeps field (answer_challenges E cs)"
  by (induction cs) (auto intro!: keeps_gssauth assms)

lemma keeps_authenticate:
  assumes "\<And>h v. field (h\<lparr>gss_vc := v\<rparr>) = field h" "\<And>h v. field (h\<lparr>gss_step := v\<rparr>) = field h"
  shows "keeps field (imap_authenticate E mech)"
  unfolding imap_authenticate_def
  by (auto intro!: keeps_answer_challenges assms)

lemma keeps_login [intro!, simp]: "keeps field (imap_login E u p)"
  by (simp add: imap_login_def)

lemma keeps_get_folders [intro!, simp]: "keeps field (get_folders E)"
  unfolding get_folders_def imap_list_def
  by (auto split: option.splits)

lemma keeps_init_folder:
  assumes "\<And>h v. field (h\<lparr>last_uid := v\<rparr>) = field h"
  shows "keeps field (init_folder E f)"
  unfolding init_folder_def imap_select_def imap_fetch_uid_def
  by (auto intro!: keeps_modify simp: assms set_mark_def split: option.splits list.splits)

lemma keeps_set_last_uids_loop:
  assumes "\<And>h v. field (h\<lparr>last_uid := v\<rparr>) = field h"
  shows "keeps field (set_last_uids_loop E fs)"
  by (induction fs) (auto intro!: keeps_init_folder assms)

lemma keeps_set_last_uids:
  assumes "\<And>h v. field (h\<lparr>last_uid := v\<rparr>) = field h"
  shows "keeps field (set_last_uids E)"
  unfolding set_last_uids_def
  by (auto intro!: keeps_modify keeps_set_last_uids_loop assms)

lemma keeps_check_folder:
  assumes "\<And>h v. field (h\<lparr>last_uid := v\<rparr>) = field h"
  shows "keeps field (check_folder E f hs)"
  unfolding check_folder_def imap_select_def imap_fetch_uid_def imap_search_def imap_fetch_header_def
  by (auto intro!: keeps_modify simp: assms set_mark_def split: option.splits list.splits sum.splits)

lemma keeps_check_loop:
  assumes "\<And>h v. field (h\<lparr>last_uid := v\<rparr>) = field h"
  shows "keeps field (check_loop E fs hs)"
  by (induction fs arbitrary: hs) (auto intro!: keeps_check_folder assms)

lemma keeps_check_body:
  assumes "\<And>h v. field (h\<lparr>last_uid := v\<rparr>) = field h"
  shows "keeps field (check_body E)"
  unfolding check_body_def
  by (auto intro!: keeps_check_loop assms)

lemma keeps_recover:
  assumes "\<And>h v. field (h\<lparr>gss_vc := v\<rparr>) = field h" "\<And>h v. field (h\<lparr>gss_step := v\<rparr>) = field h"
    "\<And>h v. field (h\<lparr>imap := v\<rparr>) = field h"
  shows "keeps field (recover E)"
  unfolding recover_def IMAP4_def IMAP4_SSL_def
  by (auto intro!: keeps_modify keeps_authenticate simp: assms Let_def)

subsection \<open>Unfolding sets for evaluating concrete runs\<close>

lemmas io_all = bind_def return_def raise_def get_def modify_def call_def
  imap_list_def imap_select_def imap_search_def imap_fetch_header_def imap_fetch_uid_def
  imap_login_def IMAP4_def IMAP4_SSL_def

lemmas str_all = folder_re_match_def descriptor_def dquote_def newline_def split_last_def
  uid_here_def is_digit_def int_of_digits_def digit_val_def digit_char_def strip_def replace_def
  canonical_folder_def show_nat.simps replace_scan.simps

lemmas mb_all = mailbox_env_def mb_failure_def mb_strings_def mb_select_def mb_fetch_def
  selected_box_def hits_def msg_number_def header_entries_def uid_envelope_def no_faults_def
  fault_at_def

lemmas handler_all = check_body_def get_folders_def check_folder_def set_mark_def
  message_from_string_def tag_folder_def recover_def set_last_uids_def init_folder_def init_def

lemma result_pair: "fst p = a \<Longrightarrow> p = (a, snd p)"
  by (cases p) simp

lemma result_some: "map_option fst x = Some a \<Longrightarrow> x = Some (a, snd (the x))"
  by (cases x) auto

lemma result_inr: "\<not> isl x \<Longrightarrow> x = Inr (projr x)"
  by (cases x) auto

subsection \<open>The history only grows\<close>

lemma growsD: "grows m \<Longrightarrow> m s = (r, s') \<Longrightarrow> \<exists>pre. history s' = pre @ history s"
  by (auto simp: grows_def dest: spec [where x = s])

lemma grows_return [intro!, simp]: "grows (return v)"
  by (simp add: grows_def return_def)

lemma grows_raise [intro!, simp]: "grows (raise e)"
  by (simp add: grows_def raise_def)

lemma grows_get [intro!, simp]: "grows (get g)"
  by (simp add: grows_def get_def)

lemma grows_modify [intro!, simp]: "grows (modify g)"
  by (simp add: grows_def modify_def)

lemma grows_call [intro!, simp]: "grows (call E r a)"
  by (simp add: grows_def call_def Let_def split: option.splits)

lemma grows_bind [intro!]: "grows m \<Longrightarrow> (\<And>v. grows (k v)) \<Longrightarrow> grows (bind m k)"
  unfolding grows_def bind_def
proof
  fix s
  assume m: "\<forall>s. \<exists>pre. history (snd (m s)) = pre @ history s"
    and k: "\<And>v. \<forall>s. \<exists>pre. history (snd (k v s)) = pre @ history s"
  obtain r s1 where ms: "m s = (r, s1)" by (cases "m s")
  from m ms obtain p1 where p1: "history s1 = p1 @ history s"
    by (metis snd_conv)
  show "\<exists>pre. history (snd (case m s of (Inl e, s') \<Rightarrow> (Inl e, s') | (Inr v, s') \<Rightarrow> k v s')) =
          pre @ history s"
  proof (cases r)
    case (Inl e)
    with ms p1 show ?thesis by simp
  next
    case (Inr v)
    from k [of v] obtain p2 where "history (snd (k v s1)) = p2 @ history s1" by blast
    with ms p1 Inr show ?thesis by simp
  qed
qed

lemma grows_krb_ctx [intro!, simp]: "grows (krb_ctx vc)"
  by (simp add: krb_ctx_def split: option.splits)

lemma grows_gssauth [intro!, simp]: "grows (gssauth E c)"
  unfolding gssauth_def gss_do_step_def gss_do_wrap_def
  by (auto split: option.splits)

lemma grows_answer_challenges [intro!, simp]: "grows (answer_challenges E cs)"
  by (induction cs) auto

lemma grows_authenticate [intro!, simp]: "grows (imap_authenticate E mech)"
  unfolding imap_authenticate_def by auto

lemma grows_login [intro!, simp]: "grows (imap_login E u p)"
  by (simp add: imap_login_def)

lemma grows_get_folders [intro!, simp]: "grows (get_folders E)"
  unfolding get_folders_def imap_list_def
  by (auto split: option.splits)

lemma grows_check_folder [intro!, simp]: "grows (check_folder E f hs)"
  unfolding check_folder_def imap_select_def imap_fetch_uid_def imap_search_def
    imap_fetch_header_def
  by (auto split: option.splits list.splits sum.splits)

lemma grows_check_loop [intro!, simp]: "grows (check_loop E fs hs)"
  by (induction fs arbitrary: hs) auto

lemma grows_check_body [intro!, simp]: "grows (check_body E)"
  unfolding check_body_def by auto

lemma grows_recover [intro!, simp]: "grows (recover E)"
  unfolding recover_def IMAP4_def IMAP4_SSL_def
  by (auto simp: Let_def)

subsection \<open>Stepping through an operation\<close>

lemma bind_return: "bind (return v) k s = k v s"
  by (simp add: bind_def return_def)

lemma bind_raise: "bind (raise e) k s = (Inl e, s)"
  by (simp add: bind_def raise_def)

lemma bind_get: "bind (get f) k s = k (f (self s)) s"
  by (simp add: bind_def get_def)

lemma bind_modify: "bind (modify f) k s = k () (s\<lparr>self := f (self s)\<rparr>)"
  by (simp add: bind_def modify_def)

lemma bind_call_None:
  "failure E (r # history s) = None \<Longrightarrow>
   bind (call E r a) k s = k (a (r # history s)) (s\<lparr>history := r # history s\<rparr>)"
  by (simp add: bind_def call_def Let_def)

lemma bind_call_Some:
  "failure E (r # history s) = Some e \<Longrightarrow>
   bind (call E r a) k s = (Inl e, s\<lparr>history := r # history s\<rparr>)"
  by (simp add: bind_def call_def Let_def)

lemma call_None:
  "failure E (r # history s) = None \<Longrightarrow>
   call E r a s = (Inr (a (r # history s)), s\<lparr>history := r # history s\<rparr>)"
  by (simp add: call_def Let_def)

lemma call_Some:
  "failure E (r # history s) = Some e \<Longrightarrow> call E r a s = (Inl e, s\<lparr>history := r # history s\<rparr>)"
  by (simp add: call_def Let_def)

lemmas step = bind_return bind_raise bind_get bind_modify bind_call_None bind_call_Some
  call_None call_Some return_def raise_def

section \<open>The structure of check\<close>

lemma auth_or_login_keeps:
  assumes "\<And>h v. field (h\<lparr>gss_vc := v\<rparr>) = field h" "\<And>h v. field (h\<lparr>gss_step := v\<rparr>) = field h"
  shows "keeps field (bind (get gssapi) (\<lambda>g.
       if g then imap_authenticate E ''GSSAPI''
       else bind (get username) (\<lambda>u. bind (get password) (\<lambda>p. imap_login E u p))))"
  by (auto intro!: keeps_authenticate assms)

lemma recover_session:
  assumes "recover E s = (r, s1)"
  shows "server (self s1) = server (self s) \<and> port (self s1) = port (self s) \<and>
         (imap (self s1) = imap (self s) \<or> imap (self s1) = fresh_session (self s)) \<and>
         (\<forall>u. r = Inr u \<longrightarrow> imap (self s1) = fresh_session (self s))"
proof -
  let ?auth = "bind (get gssapi) (\<lambda>g.
       if g then imap_authenticate E ''GSSAPI''
       else bind (get username) (\<lambda>u. bind (get password) (\<lambda>p. imap_login E u p)))"
  let ?req = "Connect (server (self s)) (default_port (s_ssl (imap (self s)))) (s_ssl (imap (self s)))"
  let ?h = "?req # history s"
  show ?thesis
  proof (cases "failure E ?h")
    case (Some e)
    then have "recover E s = (Inl e, s\<lparr>history := ?h\<rparr>)"
      by (cases "s_ssl (imap (self s))")
         (simp_all add: recover_def io_defs IMAP4_def IMAP4_SSL_def Let_def default_port_def)
    with assms show ?thesis by auto
  next
    case None
    let ?s2 = "s\<lparr>history := ?h, self := (self s)\<lparr>imap := fresh_session (self s)\<rparr>\<rparr>"
    from None have "recover E s = ?auth ?s2"
      by (cases "s_ssl (imap (self s))")
         (simp_all add: recover_def bind_def get_def modify_def call_def IMAP4_def IMAP4_SSL_def Let_def default_port_def fresh_session_def)
    with assms have a: "?auth ?s2 = (r, s1)" by simp
    have "imap (self s1) = imap (self ?s2)" "server (self s1) = server (self ?s2)"
      "port (self s1) = port (self ?s2)"
      using keepsD [OF auth_or_login_keeps a, where field = imap]
        keepsD [OF auth_or_login_keeps a, where field = server]
        keepsD [OF auth_or_login_keeps a, where field = port]
      by simp_all
    then show ?thesis by simp
  qed
qed

lemma check_ok:
  "check_body E s = (Inr hs, s1) \<Longrightarrow> check (Suc n) E s = Some (Inr hs, s1)"
  by simp

lemma check_propagate:
  "check_body E s = (Inl e, s1) \<Longrightarrow> \<not> caught e \<or> reraised e \<Longrightarrow>
   check (Suc n) E s = Some (Inl e, s1)"
  by auto

lemma check_recover_fail:
  "check_body E s = (Inl e, s1) \<Longrightarrow> caught e \<Longrightarrow> \<not> reraised e \<Longrightarrow>
   recover E s1 = (Inl e', s2) \<Longrightarrow> check (Suc n) E s = Some (Inl e', s2)"
  by simp

lemma check_retry:
  "check_body E s = (Inl e, s1) \<Longrightarrow> caught e \<Longrightarrow> \<not> reraised e \<Longrightarrow>
   recover E s1 = (Inr u, s2) \<Longrightarrow> check (Suc n) E s = check n E s2"
  by simp

lemma check_rel:
  assumes body: "\<And>s r s1. check_body E s = (r, s1) \<Longrightarrow> R s s1"
    and rec: "\<And>s r s1. recover E s = (r, s1) \<Longrightarrow> R s s1"
    and trans: "\<And>a b c. R a b \<Longrightarrow> R b c \<Longrightarrow> R a c"
  shows "check n E s = Some (r, s') \<Longrightarrow> R s s'"
proof (induction n arbitrary: s)
  case 0
  then show ?case by simp
next
  case (Suc n)
  obtain r1 s1 where b: "check_body E s = (r1, s1)" by (cases "check_body E s")
  note R1 = body [OF b]
  show ?case
  proof (cases r1)
    case (Inr hs)
    with Suc.prems b R1 show ?thesis by simp
  next
    case r1: (Inl e)
    show ?thesis
    proof (cases "\<not> caught e \<or> reraised e")
      case True
      with Suc.prems b R1 r1 show ?thesis by auto
    next
      case False
      obtain r2 s2 where rc: "recover E s1 = (r2, s2)" by (cases "recover E s1")
      note R2 = trans [OF R1 rec [OF rc]]
      show ?thesis
      proof (cases r2)
        case (Inl e')
        with Suc.prems b r1 False rc have "s' = s2" by simp
        with R2 show ?thesis by simp
      next
        case (Inr u)
        with Suc.prems b r1 False rc have "check n E s2 = Some (r, s')" by simp
        from trans [OF R2 Suc.IH [OF this]] show ?thesis .
      qed
    qed
  qed
qed

lemma check_session:
  assumes "check n E s = Some (r, s')"
  shows "server (self s') = server (self s) \<and> port (self s') = port (self s) \<and>
     (imap (self s') = imap (self s) \<or> imap (self s') = fresh_session (self s))"
proof -
  let ?R = "\<lambda>s s'. server (self s') = server (self s) \<and> port (self s') = port (self s) \<and>
     (imap (self s') = imap (self s) \<or> imap (self s') = fresh_session (self s))"
  have body: "?R s s1" if b: "check_body E s = (r, s1)" for s r s1
    using keepsD [OF keeps_check_body b, where field = server]
      keepsD [OF keeps_check_body b, where field = port]
      keepsD [OF keeps_check_body b, where field = imap]
    by simp
  have rec: "?R s s1" if b: "recover E s = (r, s1)" for s r s1
    using recover_session [OF b] by simp
  have trans: "?R a c" if "?R a b" "?R b c" for a b c
    using that by (auto simp: fresh_session_def)
  show ?thesis
    by (rule check_rel [where R = ?R, OF _ _ _ assms]) (auto dest: body rec simp: fresh_session_def)
qed

lemma recover_history:
  assumes "recover E s = (r, s1)"
  shows "\<exists>pre. history s1 =
           pre @ Connect (server (self s)) (default_port (s_ssl (imap (self s))))
                   (s_ssl (imap (self s))) # history s"
proof -
  let ?auth = "bind (get gssapi) (\<lambda>g.
       if g then imap_authenticate E ''GSSAPI''
       else bind (get username) (\<lambda>u. bind (get password) (\<lambda>p. imap_login E u p)))"
  let ?req = "Connect (server (self s)) (default_port (s_ssl (imap (self s)))) (s_ssl (imap (self s)))"
  let ?h = "?req # history s"
  show ?thesis
  proof (cases "failure E ?h")
    case (Some e)
    then have "recover E s = (Inl e, s\<lparr>history := ?h\<rparr>)"
      by (cases "s_ssl (imap (self s))")
         (simp_all add: recover_def io_defs IMAP4_def IMAP4_SSL_def Let_def default_port_def)
    with assms show ?thesis by auto
  next
    case None
    let ?s2 = "s\<lparr>history := ?h, self := (self s)\<lparr>imap := fresh_session (self s)\<rparr>\<rparr>"
    from None have "recover E s = ?auth ?s2"
      by (cases "s_ssl (imap (self s))")
         (simp_all add: recover_def bind_def get_def modify_def call_def IMAP4_def IMAP4_SSL_def
            Let_def default_port_def fresh_session_def)
    with assms have a: "?auth ?s2 = (r, s1)" by simp
    have "grows ?auth" by auto
    from growsD [OF this a] show ?thesis by simp
  qed
qed

lemma check_history:
  assumes "check n E s = Some (r, s')"
  shows "\<exists>pre. history s' = pre @ history s"
proof -
  let ?R = "\<lambda>s s'. \<exists>pre. history s' = pre @ history s"
  show ?thesis
  proof (rule check_rel [where R = ?R, OF _ _ _ assms])
    show "?R s s1" if "check_body E s = (r, s1)" for s r s1
      using growsD [OF grows_check_body that] .
    show "?R s s1" if "recover E s = (r, s1)" for s r s1
      using growsD [OF grows_recover that] .
    show "?R a c" if "?R a b" "?R b c" for a b c
      using that by auto
  qed
qed

lemma transient_iff: "caught e \<and> \<not> reraised e \<longleftrightarrow> e = Abort \<or> e = SslError 8"
  by (cases e) (auto simp: caught_def reraised_def)

lemma init_session:
  assumes "init E host user pass (Some p) use_ssl inc exc g hist = Inr s0" and "p \<noteq> 0"
  shows "port (self s0) = p \<and> imap (self s0) = \<lparr>s_host = host, s_port = p, s_ssl = use_ssl\<rparr>"
proof -
  let ?obj = "\<lparr>server = host, port = p,
                imap = \<lparr>s_host = host, s_port = p, s_ssl = use_ssl\<rparr>,
                gss_step = 0, gss_vc = None, gssapi = g,
                username = user, password = pass,
                include_re = inc, exclude_re = exc, last_uid = Map.empty\<rparr>"
  let ?rest = "bind (if g then imap_authenticate E ''GSSAPI'' else imap_login E user pass)
                 (\<lambda>_. set_last_uids E)"
  let ?h = "Connect host p use_ssl # hist"
  let ?sa = "\<lparr>self = ?obj, history = ?h\<rparr>"
  have k: "keeps field ?rest"
    if "\<And>h v. field (h\<lparr>gss_vc := v\<rparr>) = field h" "\<And>h v. field (h\<lparr>gss_step := v\<rparr>) = field h"
       "\<And>h v. field (h\<lparr>last_uid := v\<rparr>) = field h" for field :: "handler \<Rightarrow> 'a"
    using that by (auto intro!: keeps_authenticate keeps_set_last_uids)
  show ?thesis
  proof (cases "failure E ?h")
    case (Some e)
    with assms have False
      by (cases use_ssl) (simp_all add: init_def step IMAP4_def IMAP4_SSL_def Let_def)
    then show ?thesis by simp
  next
    case None
    with assms have "(case ?rest ?sa of (Inl e, _) \<Rightarrow> Inl e | (Inr _, s) \<Rightarrow> Inr s) = Inr s0"
      by (cases use_ssl; cases g)
         (simp_all add: init_def step IMAP4_def IMAP4_SSL_def Let_def)
    then obtain u where r: "?rest ?sa = (Inr u, s0)"
      by (auto split: prod.splits sum.splits)
    from keepsD [OF k r, where field = port] keepsD [OF k r, where field = imap]
    show ?thesis by simp
  qed
qed

lemma bind_assoc: "bind (bind m f) g = bind m (\<lambda>x. bind (f x) g)"
  by (rule ext) (simp add: bind_def split: prod.splits sum.splits)

lemma bind_return_left: "bind (return v) k = k v"
  by (rule ext) (simp add: bind_return)

lemma set_last_uids_loop_append:
  "set_last_uids_loop E (pre @ fs) =
     bind (set_last_uids_loop E pre) (\<lambda>_. set_last_uids_loop E fs)"
  by (induction pre) (simp_all add: bind_assoc bind_return_left)

lemma check_loop_append:
  "check_loop E (pre @ fs) hs = bind (check_loop E pre hs) (check_loop E fs)"
proof (induction pre arbitrary: hs)
  case Nil
  show ?case by (simp add: bind_return_left)
next
  case (Cons a pre)
  have "check_loop E (pre @ fs) = (\<lambda>x. bind (check_loop E pre x) (check_loop E fs))"
    by (rule ext) (rule Cons.IH)
  then show ?case by (simp add: bind_assoc)
qed

lemma bind_result: "m s = (Inr v, s1) \<Longrightarrow> bind m k s = k v s1"
  by (simp add: bind_def)

lemma bind_error: "m s = (Inl e, s1) \<Longrightarrow> bind m k s = (Inl e, s1)"
  by (simp add: bind_def)

lemma init_folder_garbage:
  assumes "\<not> contains ''[Gmail]'' folder"
    and "failure E (Select folder # history s) = None"
    and "reply_select E (Select folder # history s) = (status, last_msgid # others)"
    and "status \<noteq> ''NO''" and "last_msgid \<noteq> ''0''"
    and "failure E (FetchUid last_msgid # Select folder # history s) = None"
    and "reply_strings E (FetchUid last_msgid # Select folder # history s) = uid_text # others'"
    and "search_uid uid_text = None"
  shows "init_folder E folder s =
           (Inl AttributeError, s\<lparr>history := FetchUid last_msgid # Select folder # history s\<rparr>)"
  using assms by (simp add: init_folder_def imap_select_def imap_fetch_uid_def step)

section \<open>The authentication state during recovery\<close>

lemma gssauth_wrap:
  assumes "gss_step (self s) = GSS_STATE_WRAP" "gss_vc (self s) = Some c"
    and "gssauth E ch s = (r, s')"
  shows "gss_step (self s') = GSS_STATE_WRAP \<and> gss_vc (self s') = Some c \<and>
         (\<exists>pre. history s' = pre @ history s \<and> list_all (stale_only c) pre)"
  using assms unfolding gssauth_def gss_do_wrap_def krb_ctx_def
  by (auto simp: io_defs Let_def GSS_STATE_STEP_def GSS_STATE_WRAP_def
      split: if_splits option.splits prod.splits sum.splits)

lemma answer_challenges_wrap:
  assumes "gss_step (self s) = GSS_STATE_WRAP" "gss_vc (self s) = Some c"
    and "answer_challenges E chs s = (r, s')"
  shows "gss_step (self s') = GSS_STATE_WRAP \<and> gss_vc (self s') = Some c \<and>
         (\<exists>pre. history s' = pre @ history s \<and> list_all (stale_only c) pre)"
  using assms
proof (induction chs arbitrary: s)
  case Nil
  then show ?case by (simp add: return_def)
next
  case (Cons ch chs)
  obtain r1 s1 where g: "gssauth E ch s = (r1, s1)" by (cases "gssauth E ch s")
  from gssauth_wrap [OF Cons.prems(1,2) g] obtain p1 where
    s1: "gss_step (self s1) = GSS_STATE_WRAP" "gss_vc (self s1) = Some c"
      "history s1 = p1 @ history s" "list_all (stale_only c) p1"
    by blast
  show ?case
  proof (cases r1)
    case (Inl e)
    with Cons.prems(3) g have "s' = s1" by (simp add: bind_error)
    with s1 show ?thesis by simp
  next
    case (Inr reply)
    let ?s2 = "s1\<lparr>history := AuthReply reply # history s1\<rparr>"
    show ?thesis
    proof (cases "failure E (AuthReply reply # history s1)")
      case (Some e)
      with Cons.prems(3) g Inr have "s' = ?s2"
        by (simp add: bind_result [where m = "gssauth E ch"] step)
      with s1 show ?thesis by simp
    next
      case None
      with Cons.prems(3) g Inr have "answer_challenges E chs ?s2 = (r, s')"
        by (simp add: bind_result [where m = "gssauth E ch"] step)
      from Cons.IH [OF _ _ this] s1 obtain p2 where
        "gss_step (self s') = GSS_STATE_WRAP" "gss_vc (self s') = Some c"
        "history s' = p2 @ AuthReply reply # p1 @ history s" "list_all (stale_only c) p2"
        by auto
      with s1 have "history s' = (p2 @ AuthReply reply # p1) @ history s \<and>
          list_all (stale_only c) (p2 @ AuthReply reply # p1)"
        by simp
      with \<open>gss_step (self s') = GSS_STATE_WRAP\<close> \<open>gss_vc (self s') = Some c\<close>
      show ?thesis by blast
    qed
  qed
qed

lemma authenticate_wrap:
  assumes "gss_step (self s) = GSS_STATE_WRAP" "gss_vc (self s) = Some c"
    and "imap_authenticate E mech s = (r, s')"
  shows "gss_step (self s') = GSS_STATE_WRAP \<and> gss_vc (self s') = Some c \<and>
         (\<exists>pre. history s' = pre @ history s \<and> list_all (stale_only c) pre)"
proof (cases "failure E (Authenticate mech # history s)")
  case (Some e)
  with assms show ?thesis by (auto simp: imap_authenticate_def step)
next
  case None
  let ?s1 = "s\<lparr>history := Authenticate mech # history s\<rparr>"
  from None assms(3) have
    "answer_challenges E (challenges E (Authenticate mech # history s)) ?s1 = (r, s')"
    by (simp add: imap_authenticate_def step)
  from answer_challenges_wrap [OF _ _ this, of c] assms(1,2) obtain p where
    "gss_step (self s') = GSS_STATE_WRAP" "gss_vc (self s') = Some c"
    "history s' = (p @ [Authenticate mech]) @ history s" "list_all (stale_only c) p"
    by auto
  then have "history s' = (p @ [Authenticate mech]) @ history s \<and>
      list_all (stale_only c) (p @ [Authenticate mech])" by simp
  with \<open>gss_step (self s') = GSS_STATE_WRAP\<close> \<open>gss_vc (self s') = Some c\<close>
  show ?thesis by blast
qed

lemma recover_unfold:
  "recover E s =
     bind (call E (Connect (server (self s)) (default_port (s_ssl (imap (self s))))
                     (s_ssl (imap (self s))))
             (\<lambda>_. fresh_session (self s)))
       (\<lambda>new. bind (modify (\<lambda>h. h\<lparr>imap := new\<rparr>)) (\<lambda>_.
          bind (get gssapi) (\<lambda>g.
            if g then imap_authenticate E ''GSSAPI''
            else bind (get username) (\<lambda>u. bind (get password) (\<lambda>p. imap_login E u p))))) s"
  by (cases "s_ssl (imap (self s))")
     (simp_all add: recover_def bind_get IMAP4_def IMAP4_SSL_def Let_def default_port_def
        fresh_session_def)

lemma recover_wrap:
  assumes "gss_step (self s) = GSS_STATE_WRAP" "gss_vc (self s) = Some c"
    and "recover E s = (r, s')"
  shows "gss_step (self s') = GSS_STATE_WRAP \<and> gss_vc (self s') = Some c \<and>
         (\<exists>pre. history s' = pre @ history s \<and> list_all (stale_only c) pre)"
proof -
  let ?conn = "Connect (server (self s)) (default_port (s_ssl (imap (self s))))
                 (s_ssl (imap (self s)))"
  let ?s1 = "s\<lparr>history := ?conn # history s, self := (self s)\<lparr>imap := fresh_session (self s)\<rparr>\<rparr>"
  show ?thesis
  proof (cases "failure E (?conn # history s)")
    case (Some e)
    with assms show ?thesis by (auto simp: recover_unfold step)
  next
    case None
    show ?thesis
    proof (cases "gssapi (self s)")
      case True
      with None assms(3) have a: "imap_authenticate E ''GSSAPI'' ?s1 = (r, s')"
        by (simp add: recover_unfold step)
      from authenticate_wrap [OF _ _ a, of c] assms(1,2) obtain p where
        "gss_step (self s') = GSS_STATE_WRAP" "gss_vc (self s') = Some c"
        "history s' = (p @ [?conn]) @ history s" "list_all (stale_only c) p"
        by auto
      then have "history s' = (p @ [?conn]) @ history s \<and>
          list_all (stale_only c) (p @ [?conn])" by simp
      with \<open>gss_step (self s') = GSS_STATE_WRAP\<close> \<open>gss_vc (self s') = Some c\<close>
      show ?thesis by blast
    next
      case False
      with None assms(3) have
        "call E (Login (username (self s)) (password (self s))) (\<lambda>_. ()) ?s1 = (r, s')"
        by (simp add: recover_unfold step imap_login_def)
      then have "self s' = self ?s1 \<and>
          history s' = [Login (username (self s)) (password (self s)), ?conn] @ history s"
        by (auto simp: call_def Let_def split: option.splits)
      with assms(1,2) have "gss_step (self s') = GSS_STATE_WRAP \<and> gss_vc (self s') = Some c \<and>
          history s' = [Login (username (self s)) (password (self s)), ?conn] @ history s \<and>
          list_all (stale_only c) [Login (username (self s)) (password (self s)), ?conn]"
        by simp
      then show ?thesis by blast
    qed
  qed
qed

lemma gssauth_wrap_first:
  assumes "gss_step (self s) = GSS_STATE_WRAP" "gss_vc (self s) = Some c"
    and "have_kerberos_gss E" and "gssauth E ch s = (r, s')"
  shows "\<exists>pre. history s' = pre @ KrbUnwrap c (b64encode E ch) # history s"
  using assms unfolding gssauth_def gss_do_wrap_def krb_ctx_def
  by (auto simp: io_defs Let_def GSS_STATE_STEP_def GSS_STATE_WRAP_def
      split: if_splits option.splits prod.splits sum.splits)

lemma recover_first_callback:
  assumes w: "gss_step (self s) = GSS_STATE_WRAP" "gss_vc (self s) = Some c"
    and g: "gssapi (self s)" and k: "have_kerberos_gss E"
    and c1: "failure E (Connect (server (self s)) (default_port (s_ssl (imap (self s))))
                 (s_ssl (imap (self s))) # history s) = None"
    and c2: "failure E (Authenticate ''GSSAPI'' #
               Connect (server (self s)) (default_port (s_ssl (imap (self s))))
                 (s_ssl (imap (self s))) # history s) = None"
    and ch: "challenges E (Authenticate ''GSSAPI'' #
               Connect (server (self s)) (default_port (s_ssl (imap (self s))))
                 (s_ssl (imap (self s))) # history s) = ch # chs"
  shows "\<exists>pre. history (snd (recover E s)) =
           pre @ KrbUnwrap c (b64encode E ch) # Authenticate ''GSSAPI'' #
           Connect (server (self s)) (default_port (s_ssl (imap (self s))))
             (s_ssl (imap (self s))) # history s"
proof -
  let ?conn = "Connect (server (self s)) (default_port (s_ssl (imap (self s))))
                 (s_ssl (imap (self s)))"
  let ?sa = "s\<lparr>self := (self s)\<lparr>imap := fresh_session (self s)\<rparr>,
               history := Authenticate ''GSSAPI'' # ?conn # history s\<rparr>"
  let ?K = "\<lambda>r. bind (call E (AuthReply r) (\<lambda>_. ())) (\<lambda>_. answer_challenges E chs)"
  from g c1 c2 ch have rec: "recover E s = bind (gssauth E ch) ?K ?sa"
    by (simp add: recover_unfold step imap_authenticate_def)
  obtain r1 sb where ga: "gssauth E ch ?sa = (r1, sb)" by (cases "gssauth E ch ?sa")
  from gssauth_wrap_first [OF _ _ k ga, of c] w obtain p1 where
    p1: "history sb = p1 @ KrbUnwrap c (b64encode E ch) # Authenticate ''GSSAPI'' # ?conn # history s"
    by auto
  show ?thesis
  proof (cases r1)
    case (Inl e)
    with rec ga have "snd (recover E s) = sb" by (simp add: bind_error)
    with p1 show ?thesis by auto
  next
    case (Inr reply)
    obtain r2 sc where kk: "?K reply sb = (r2, sc)" by (cases "?K reply sb")
    have "grows (?K reply)" by auto
    from growsD [OF this kk] obtain p2 where "history sc = p2 @ history sb" by blast
    with p1 have "history sc = (p2 @ p1) @ KrbUnwrap c (b64encode E ch) #
        Authenticate ''GSSAPI'' # ?conn # history s" by simp
    moreover from rec ga Inr kk have "snd (recover E s) = sc"
      by (simp add: bind_result [where m = "gssauth E ch"])
    ultimately show ?thesis by blast
  qed
qed

lemma check_wrap:
  assumes "gss_step (self s) = GSS_STATE_WRAP" "gss_vc (self s) = Some c"
    and "check n E s = Some (r, s')"
  shows "gss_step (self s') = GSS_STATE_WRAP \<and> gss_vc (self s') = Some c"
proof -
  let ?I = "\<lambda>s. gss_step (self s) = GSS_STATE_WRAP \<and> gss_vc (self s) = Some c"
  let ?R = "\<lambda>s s'. ?I s \<longrightarrow> ?I s'"
  have "?R s s'"
  proof (rule check_rel [where R = ?R, OF _ _ _ assms(3)])
    show "?R s s1" if b: "check_body E s = (r, s1)" for s r s1
      using keepsD [OF keeps_check_body b, where field = gss_step]
        keepsD [OF keeps_check_body b, where field = gss_vc]
      by simp
    show "?R s s1" if b: "recover E s = (r, s1)" for s r s1
      using recover_wrap [OF _ _ b, of c] by simp
    show "?R a c" if "?R a b" "?R b c" for a b c
      using that by simp
  qed
  with assms(1,2) show ?thesis by simp
qed

subsection \<open>The steps of the recovery\<close>

lemma bind_call_history:
  assumes "\<And>v. grows (k v)" and "bind (call E r a) k s = (res, s')"
  shows "\<exists>pre. history s' = pre @ r # history s"
proof (cases "failure E (r # history s)")
  case None
  with assms(2) have "k (a (r # history s)) (s\<lparr>history := r # history s\<rparr>) = (res, s')"
    by (simp add: bind_def call_def Let_def)
  from growsD [OF assms(1) this] show ?thesis by simp
next
  case (Some e)
  with assms(2) have "s' = s\<lparr>history := r # history s\<rparr>"
    by (auto simp: bind_def call_def Let_def)
  then show ?thesis by simp
qed

lemma st_updates: "s\<lparr>history := a, self := b\<rparr> = \<lparr>self = b, history = a\<rparr>"
  by (cases s) simp

lemma check_body_first_request:
  assumes "check_body E s = (r, s1)"
  shows "\<exists>pre. history s1 = pre @ ListFolders # history s"
proof -
  have "check_body E =
      bind (call E ListFolders (reply_strings E)) (\<lambda>descriptors.
        bind (case those (map folder_re_match descriptors) of
                None \<Rightarrow> raise AttributeError
              | Some matches \<Rightarrow>
                  bind (get include_re) (\<lambda>inc.
                  bind (get exclude_re) (\<lambda>exc.
                    return (filter (\<lambda>folder. inc folder \<and> \<not> exc folder)
                              (map canonical_folder matches)))))
          (\<lambda>folders. check_loop E folders []))"
    by (simp add: check_body_def get_folders_def imap_list_def bind_assoc)
  with assms have "bind (call E ListFolders (reply_strings E)) (\<lambda>descriptors.
        bind (case those (map folder_re_match descriptors) of
                None \<Rightarrow> raise AttributeError
              | Some matches \<Rightarrow>
                  bind (get include_re) (\<lambda>inc.
                  bind (get exclude_re) (\<lambda>exc.
                    return (filter (\<lambda>folder. inc folder \<and> \<not> exc folder)
                              (map canonical_folder matches)))))
          (\<lambda>folders. check_loop E folders [])) s = (r, s1)"
    by simp
  then show ?thesis
    by (rule bind_call_history [rotated]) (auto split: option.splits)
qed

lemma check_first_request:
  assumes "check n E s = Some (r, s')"
  shows "\<exists>pre. history s' = pre @ ListFolders # history s"
proof (cases n)
  case 0
  with assms show ?thesis by simp
next
  case (Suc m)
  obtain rb sb where b: "check_body E s = (rb, sb)" by (cases "check_body E s")
  from check_body_first_request [OF b] obtain p where p: "history sb = p @ ListFolders # history s"
    by blast
  have "\<exists>q. history s' = q @ history sb"
  proof (cases rb)
    case (Inr hs)
    with assms Suc b have "s' = sb" by simp
    then show ?thesis by simp
  next
    case (Inl e)
    show ?thesis
    proof (cases "\<not> caught e \<or> reraised e")
      case True
      with assms Suc b Inl have "s' = sb" by auto
      then show ?thesis by simp
    next
      case False
      obtain r2 s2 where rc: "recover E sb = (r2, s2)" by (cases "recover E sb")
      from growsD [OF grows_recover rc] obtain q2 where q2: "history s2 = q2 @ history sb" by blast
      show ?thesis
      proof (cases r2)
        case l: (Inl e')
        with assms Suc b Inl False rc have "s' = s2" by auto
        with q2 show ?thesis by blast
      next
        case (Inr u)
        with assms Suc b Inl False rc have "check m E s2 = Some (r, s')" by auto
        from check_history [OF this] q2 show ?thesis by auto
      qed
    qed
  qed
  with p show ?thesis by auto
qed

lemma recover_steps:
  "recover E s =
     (case failure E (Connect (server (self s)) (default_port (s_ssl (imap (self s))))
                        (s_ssl (imap (self s))) # history s) of
        Some e' \<Rightarrow>
          (Inl e', s\<lparr>history := Connect (server (self s)) (default_port (s_ssl (imap (self s))))
                                   (s_ssl (imap (self s))) # history s\<rparr>)
      | None \<Rightarrow>
          (if gssapi (self s) then imap_authenticate E ''GSSAPI''
           else imap_login E (username (self s)) (password (self s)))
            \<lparr>self = (self s)\<lparr>imap := fresh_session (self s)\<rparr>,
             history = Connect (server (self s)) (default_port (s_ssl (imap (self s))))
                         (s_ssl (imap (self s))) # history s\<rparr>)"
  unfolding recover_unfold
  by (simp add: bind_def call_def modify_def get_def Let_def st_updates split: option.splits)

lemma reauth_history:
  assumes "(if g then imap_authenticate E ''GSSAPI'' else imap_login E u p) s = (r, s')"
  shows "\<exists>pre. history s' = pre @ (if g then Authenticate ''GSSAPI'' else Login u p) # history s"
proof (cases g)
  case True
  with assms have "bind (call E (Authenticate ''GSSAPI'') (challenges E)) (answer_challenges E) s = (r, s')"
    by (simp add: imap_authenticate_def)
  from bind_call_history [OF _ this] True show ?thesis by simp
next
  case False
  with assms have "history s' = Login u p # history s"
    by (auto simp: imap_login_def call_def Let_def split: option.splits)
  with False show ?thesis by simp
qed

lemma reauth_keeps_session:
  assumes "(if g then imap_authenticate E ''GSSAPI'' else imap_login E u p) s = (r, s')"
  shows "imap (self s') = imap (self s)"
proof -
  have "keeps imap (if g then imap_authenticate E ''GSSAPI'' else imap_login E u p)"
    by (auto intro!: keeps_authenticate)
  from keepsD [OF this assms] show ?thesis .
qed

lemma failure_mailbox_env: "failure (mailbox_env w F) = mb_failure w F"
  by (simp add: mailbox_env_def)

section \<open>Decimal numerals and the UID envelope\<close>

lemma digit_cases: "d < 10 \<Longrightarrow> d \<in> {0, 1, 2, 3, 4, 5, 6, 7, 8, 9::nat}"
  by auto

lemma digit_char_digit: "d < 10 \<Longrightarrow> is_digit (digit_char d) \<and> digit_val (digit_char d) = d"
  by (drule digit_cases) (auto simp: digit_char_def is_digit_def digit_val_def)

lemma show_nat_not_Nil: "show_nat n \<noteq> []"
  by (subst show_nat.simps) simp

lemma show_nat_digits: "list_all is_digit (show_nat n)"
proof (induction n rule: show_nat.induct)
  case (1 n)
  show ?case
  proof (cases "n < 10")
    case True
    then show ?thesis by (subst show_nat.simps) (simp add: digit_char_digit)
  next
    case False
    with 1 show ?thesis by (subst show_nat.simps) (simp add: digit_char_digit)
  qed
qed

lemma int_of_digits_snoc: "int_of_digits (ds @ [c]) = 10 * int_of_digits ds + digit_val c"
  by (simp add: int_of_digits_def)

lemma int_of_show: "int_of_digits (show_nat n) = n"
proof (induction n rule: show_nat.induct)
  case (1 n)
  show ?case
  proof (cases "n < 10")
    case True
    then show ?thesis
      by (subst show_nat.simps) (simp add: int_of_digits_def digit_char_digit)
  next
    case False
    with 1 show ?thesis
      by (subst show_nat.simps) (simp add: int_of_digits_snoc digit_char_digit)
  qed
qed

lemma digit_not_paren: "is_digit c \<Longrightarrow> c \<noteq> CHR ''('' \<and> c \<noteq> CHR '')'' \<and> c \<noteq> CHR '' ''"
  by (auto simp: is_digit_def)

lemma search_uid_skip_digits:
  "list_all is_digit ds \<Longrightarrow> search_uid (ds @ rest) = search_uid rest"
proof (induction ds)
  case Nil
  show ?case by simp
next
  case (Cons d ds)
  then have "uid_here (d # ds @ rest) = None"
    by (auto simp: uid_here_def dest: digit_not_paren)
  with Cons show ?case by simp
qed

lemma takeWhile_digits: "list_all is_digit ds \<Longrightarrow>
    takeWhile is_digit (ds @ '')'') = ds \<and> dropWhile is_digit (ds @ '')'') = '')''"
  by (induction ds) (auto simp: is_digit_def)

lemma uid_here_envelope: "uid_here (''(UID '' @ show_nat u @ '')'') = Some u"
  using takeWhile_digits [OF show_nat_digits, of u]
  by (simp add: uid_here_def show_nat_not_Nil int_of_show)

lemma search_uid_envelope:
  "search_uid (show_nat i @ '' (UID '' @ show_nat u @ '')'') = Some u"
proof -
  have "search_uid (show_nat i @ '' (UID '' @ show_nat u @ '')'') =
        search_uid ('' (UID '' @ show_nat u @ '')'')"
    by (rule search_uid_skip_digits) (rule show_nat_digits)
  also have "\<dots> = search_uid (''(UID '' @ show_nat u @ '')'')"
    by (simp add: uid_here_def)
  also have "\<dots> = Some u"
    using uid_here_envelope [of u] by simp
  finally show ?thesis .
qed

lemma join_sp_not_Nil: "x \<noteq> [] \<Longrightarrow> join_sp (x # xs) \<noteq> []"
  by (cases xs) auto

lemma join_show_Nil: "join_sp (map show_nat xs) = [] \<longleftrightarrow> xs = []"
  by (cases xs) (auto simp: join_sp_not_Nil show_nat_not_Nil)

lemma msg_number_count:
  "ms \<noteq> [] \<Longrightarrow> msg_number ms (show_nat (length ms)) = Some (length ms)"
  by (simp add: msg_number_def show_nat_not_Nil show_nat_digits int_of_show Suc_leI)

section \<open>One folder of check against a mail store\<close>

lemmas mb_env = mailbox_env_def mb_failure_def mb_strings_def mb_select_def mb_fetch_def
  selected_box_def

lemma payloads_header_entries: "\<exists>texts. payloads (header_entries ms idx) = Inr texts"
proof -
  have "\<exists>texts. payloads (concat (map g xs)) = Inr texts"
    if "\<And>x. g x = [] \<or> (\<exists>a b. g x = [Tup a b, Str '')''])" for g :: "string \<Rightarrow> entry list" and xs
  proof (induction xs)
    case Nil
    show ?case by simp
  next
    case (Cons x xs)
    then obtain texts where t: "payloads (concat (map g xs)) = Inr texts" by blast
    from that [of x] show ?case
    proof
      assume "g x = []"
      with t show ?thesis by simp
    next
      assume "\<exists>a b. g x = [Tup a b, Str '')'']"
      then obtain a b where "g x = [Tup a b, Str '')'']" by blast
      with t show ?thesis by simp
    qed
  qed
  then show ?thesis
    unfolding header_entries_def
    by (rule meta_mp [rotated]) (auto split: option.splits)
qed

lemma hits_Nil: "hits lo ms = [] \<longleftrightarrow>
    (\<forall>m \<in> set ms. \<not> m_seen m \<longrightarrow> lo \<le> m_uid m \<longrightarrow> 99999999 < m_uid m)"
proof -
  have "map snd (zip [1 ..< Suc (length ms)] ms) = ms"
    by (rule map_snd_zip) (simp del: upt_Suc)
  then have s: "snd ` set (zip [1 ..< Suc (length ms)] ms) = set ms"
    by (metis set_map)
  have "hits lo ms = [] \<longleftrightarrow>
      (\<forall>p \<in> set (zip [1 ..< Suc (length ms)] ms).
         \<not> (\<not> m_seen (snd p) \<and> lo \<le> m_uid (snd p) \<and> m_uid (snd p) \<le> 99999999))"
    by (auto simp: hits_def filter_empty_conv)
  also have "\<dots> \<longleftrightarrow> (\<forall>m \<in> snd ` set (zip [1 ..< Suc (length ms)] ms).
         \<not> (\<not> m_seen m \<and> lo \<le> m_uid m \<and> m_uid m \<le> 99999999))"
    by auto
  finally show ?thesis unfolding s by (auto simp: not_le)
qed

lemma ascending_last:
  assumes "sorted_wrt (<) (map m_uid ms)" and "m \<in> set ms"
  shows "m_uid m \<le> m_uid (last ms)"
proof -
  from assms(2) have ne: "ms \<noteq> []" by auto
  then have ms: "ms = butlast ms @ [last ms]" by simp
  show ?thesis
  proof (cases "m = last ms")
    case True
    then show ?thesis by simp
  next
    case False
    with assms(2) ms have "m \<in> set (butlast ms)"
      by (metis Un_iff empty_iff empty_set set_ConsD set_append)
    moreover from assms(1) ms have "sorted_wrt (<) (map m_uid (butlast ms) @ [m_uid (last ms)])"
      by (metis list.simps(8,9) map_append)
    ultimately show ?thesis
      by (auto simp: sorted_wrt_append intro: less_imp_le)
  qed
qed

lemma hits_last:
  assumes "sorted_wrt (<) (map m_uid ms)" and "hits lo ms \<noteq> []"
  shows "ms \<noteq> [] \<and> lo \<le> m_uid (last ms)"
proof -
  from assms(2) obtain m where m: "m \<in> set ms" "lo \<le> m_uid m"
    unfolding hits_Nil by auto
  with ascending_last [OF assms(1) m(1)] show ?thesis by auto
qed

lemma uid_envelope_last:
  "ms \<noteq> [] \<Longrightarrow> search_uid (uid_envelope ms (length ms)) = Some (m_uid (last ms))"
  using search_uid_envelope [of "length ms" "m_uid (last ms)"]
  by (simp add: uid_envelope_def last_conv_nth)

lemma check_folder_mb:
  assumes asc: "uids_ascending w"
    and run: "check_folder (mailbox_env w F) f hs s = (r, s')"
  shows "(self s' = self s \<and> (r = Inr hs \<or> isl r)) \<or>
         (\<exists>ms mark new. boxes w f = Some ms \<and> ms \<noteq> [] \<and> last_uid (self s) f = Some mark \<and>
            hits (mark + 1) ms \<noteq> [] \<and> mark < m_uid (last ms) \<and>
            self s' = set_mark f (m_uid (last ms)) (self s) \<and> r = Inr (hs @ new) \<and>
            (\<forall>h \<in> set new. tags h = [(''folder'', f)]))"
proof (cases "contains ''[Gmail]'' f")
  case True
  with run show ?thesis by (simp add: check_folder_def return_def)
next
  case g: False
  let ?E = "mailbox_env w F"
  let ?h1 = "Select f # history s"
  show ?thesis
  proof (cases "F (length (history s))")
    case (Some e)
    with run g show ?thesis
      by (auto simp: check_folder_def imap_select_def step mb_env)
  next
    case f1: None
    show ?thesis
    proof (cases "boxes w f")
      case None
      with run g f1 show ?thesis
        by (auto simp: check_folder_def imap_select_def step mb_env)
    next
      case box: (Some ms)
      show ?thesis
      proof (cases "last_uid (self s) f")
        case None
        with run g f1 box show ?thesis
          by (auto simp: check_folder_def imap_select_def step mb_env)
      next
        case mark: (Some mark)
        let ?h2 = "Search (mark + 1) # ?h1"
        have sel: "selected_box w F ?h1 = Some ms" "selected_box w F ?h2 = Some ms"
          using f1 box by (simp_all add: selected_box_def)
        show ?thesis
        proof (cases "F (Suc (length (history s)))")
          case (Some e)
          with run g f1 box mark sel show ?thesis
            by (auto simp: check_folder_def imap_select_def imap_search_def step
                mailbox_env_def mb_failure_def mb_select_def)
        next
          case f2: None
          show ?thesis
          proof (cases "hits (mark + 1) ms = []")
            case True
            with run g f1 f2 box mark sel show ?thesis
              by (auto simp: check_folder_def imap_select_def imap_search_def step
                  mailbox_env_def mb_failure_def mb_select_def mb_strings_def)
          next
            case hit: False
            from asc box have "sorted_wrt (<) (map m_uid ms)"
              by (simp add: uids_ascending_def)
            from hits_last [OF this hit] have ne: "ms \<noteq> []" and top: "mark < m_uid (last ms)"
              by simp_all
            let ?ids = "join_sp (map show_nat (hits (mark + 1) ms))"
            let ?idx = "replace '' '' '','' ?ids"
            let ?h3 = "FetchHeader ?idx # ?h2"
            have ids: "?ids \<noteq> []" using hit by (simp add: join_show_Nil)
            have sel3: "selected_box w F ?h3 = Some ms"
              using f1 box by (simp add: selected_box_def)
            obtain texts where pl: "payloads (header_entries ms ?idx) = Inr texts"
              using payloads_header_entries by blast
            show ?thesis
            proof (cases "F (Suc (Suc (length (history s))))")
              case (Some e)
              with run g f1 f2 box mark sel ids show ?thesis
                by (auto simp: check_folder_def imap_select_def imap_search_def
                    imap_fetch_header_def step
                    mailbox_env_def mb_failure_def mb_select_def mb_strings_def)
            next
              case f3: None
              show ?thesis
              proof (cases "F (Suc (Suc (Suc (length (history s)))))")
                case (Some e)
                with run g f1 f2 f3 box mark sel sel3 ids pl show ?thesis
                  by (auto simp: check_folder_def imap_select_def imap_search_def
                      imap_fetch_header_def imap_fetch_uid_def step
                      mailbox_env_def mb_failure_def mb_select_def mb_strings_def mb_fetch_def)
              next
                case f4: None
                from run g f1 f2 f3 f4 box mark sel sel3 ids pl ne
                have "r = Inr (hs @ map (\<lambda>x. tag_folder f (message_from_string x)) texts) \<and>
                      self s' = set_mark f (m_uid (last ms)) (self s)"
                  by (auto simp: check_folder_def imap_select_def imap_search_def
                      imap_fetch_header_def imap_fetch_uid_def step
                      mailbox_env_def mb_failure_def mb_select_def mb_strings_def mb_fetch_def
                      msg_number_count uid_envelope_last)
                moreover have "\<forall>h \<in> set (map (\<lambda>x. tag_folder f (message_from_string x)) texts).
                    tags h = [(''folder'', f)]"
                  by (simp add: tag_folder_def message_from_string_def)
                ultimately show ?thesis using box ne mark hit top by blast
              qed
            qed
          qed
        qed
      qed
    qed
  qed
qed

section \<open>Invariants of the marks\<close>

lemma check_loop_induct_rel:
  assumes step: "\<And>f hs s r s'. check_folder E f hs s = (r, s') \<Longrightarrow> R s s'"
    and refl: "\<And>s. R s s" and trans: "\<And>a b c. R a b \<Longrightarrow> R b c \<Longrightarrow> R a c"
  shows "check_loop E fs hs s = (r, s') \<Longrightarrow> R s s'"
proof (induction fs arbitrary: hs s)
  case Nil
  then show ?case by (simp add: return_def refl)
next
  case (Cons f fs)
  obtain r1 s1 where c: "check_folder E f hs s = (r1, s1)" by (cases "check_folder E f hs s")
  note R1 = step [OF c]
  show ?case
  proof (cases r1)
    case (Inl e)
    with Cons.prems c have "s' = s1" by (simp add: bind_error)
    with R1 show ?thesis by simp
  next
    case (Inr hs1)
    with Cons.prems c have "check_loop E fs hs1 s1 = (r, s')"
      by (simp add: bind_result [where m = "check_folder E f hs"])
    from trans [OF R1 Cons.IH [OF this]] show ?thesis .
  qed
qed

lemma check_body_rel:
  assumes step: "\<And>f hs s r s'. check_folder E f hs s = (r, s') \<Longrightarrow> R (self s) (self s')"
    and refl: "\<And>h. R h h" and trans: "\<And>a b c. R a b \<Longrightarrow> R b c \<Longrightarrow> R a c"
    and run: "check_body E s = (r, s')"
  shows "R (self s) (self s')"
proof -
  obtain r1 s1 where g: "get_folders E s = (r1, s1)" by (cases "get_folders E s")
  have k: "self s1 = self s"
    using keepsD [OF keeps_get_folders g, where field = "\<lambda>h. h"] by simp
  show ?thesis
  proof (cases r1)
    case (Inl e)
    with run g have "s' = s1" by (simp add: check_body_def bind_error)
    with k refl show ?thesis by simp
  next
    case (Inr fs)
    with run g have "check_loop E fs [] s1 = (r, s')"
      by (simp add: check_body_def bind_result [where m = "get_folders E"])
    from check_loop_induct_rel [where R = "\<lambda>s s'. R (self s) (self s')", OF _ _ _ this]
      step refl trans k
    show ?thesis by metis
  qed
qed

lemma recover_keeps_marks: "recover E s = (r, s') \<Longrightarrow> last_uid (self s') = last_uid (self s)"
  using keepsD [OF keeps_recover, where field = last_uid] by simp

lemma check_marks_rel:
  assumes step: "\<And>f hs s r s'. check_folder E f hs s = (r, s') \<Longrightarrow>
                   R (last_uid (self s)) (last_uid (self s'))"
    and refl: "\<And>h. R h h" and trans: "\<And>a b c. R a b \<Longrightarrow> R b c \<Longrightarrow> R a c"
    and run: "check n E s = Some (r, s')"
  shows "R (last_uid (self s)) (last_uid (self s'))"
proof (rule check_rel [where R = "\<lambda>s s'. R (last_uid (self s)) (last_uid (self s'))", OF _ _ _ run])
  show "R (last_uid (self s)) (last_uid (self s1))" if "check_body E s = (r, s1)" for s r s1
    by (rule check_body_rel [where R = "\<lambda>h h'. R (last_uid h) (last_uid h')", OF _ _ _ that])
       (auto intro: step refl trans)
  show "R (last_uid (self s)) (last_uid (self s1))" if "recover E s = (r, s1)" for s r s1
    using recover_keeps_marks [OF that] refl by simp
  show "R (last_uid (self a)) (last_uid (self c))"
    if "R (last_uid (self a)) (last_uid (self b))" "R (last_uid (self b)) (last_uid (self c))"
    for a b c
    using that by (rule trans)
qed

lemma check_folder_marks_grow:
  assumes "uids_ascending w" and "check_folder (mailbox_env w F) f hs s = (r, s')"
    and "last_uid (self s) g = Some m"
  shows "\<exists>m'. last_uid (self s') g = Some m' \<and> m \<le> m'"
  using check_folder_mb [OF assms(1,2)] assms(3)
  by (auto simp: set_mark_def)

section \<open>A check that finds nothing new\<close>

lemma get_folders_filtered:
  assumes "get_folders E s = (Inr fs, s1)"
  shows "\<forall>f \<in> set fs. include_re (self s) f \<and> \<not> exclude_re (self s) f"
proof (cases "failure E (ListFolders # history s)")
  case (Some e)
  with assms show ?thesis by (simp add: get_folders_def imap_list_def step)
next
  case None
  with assms show ?thesis
    by (auto simp: get_folders_def imap_list_def step split: option.splits)
qed

lemma quiet_hits:
  assumes "quiet w (self s)" and "wanted (self s) f" and "boxes w f = Some ms"
  shows "\<exists>mark. last_uid (self s) f = Some mark \<and> hits (mark + 1) ms = []"
proof -
  from assms obtain mark where m: "last_uid (self s) f = Some mark"
    "\<forall>m \<in> set ms. \<not> m_seen m \<longrightarrow> m_uid m \<le> mark"
    unfolding quiet_def by blast
  then have "hits (mark + 1) ms = []"
    unfolding hits_Nil by auto
  with m show ?thesis by blast
qed

lemma check_folder_quiet:
  assumes "quiet w (self s)" and "include_re (self s) f \<and> \<not> exclude_re (self s) f"
    and "check_folder (mailbox_env w F) f hs s = (r, s')"
  shows "self s' = self s \<and> (r = Inr hs \<or> isl r)"
proof (cases "contains ''[Gmail]'' f")
  case True
  with assms(3) show ?thesis by (simp add: check_folder_def return_def)
next
  case g: False
  with assms(2) have wf: "wanted (self s) f" by (simp add: wanted_def)
  note run = assms(3)
  show ?thesis
  proof (cases "boxes w f")
  case None
  with run g show ?thesis
    by (cases "F (length (history s))")
       (auto simp: check_folder_def imap_select_def step mb_env)
next
  case (Some ms)
  from quiet_hits [OF assms(1) wf Some] obtain mark where
    m: "last_uid (self s) f = Some mark" "hits (mark + 1) ms = []" by blast
  have sel: "F (length (history s)) = None \<Longrightarrow> selected_box w F (Select f # history s) = Some ms"
    using Some by (simp add: selected_box_def)
  from run g Some m sel show ?thesis
    by (cases "F (length (history s))"; cases "F (Suc (length (history s)))")
       (auto simp: check_folder_def imap_select_def imap_search_def step
          mailbox_env_def mb_failure_def mb_select_def mb_strings_def)
qed
qed

lemma check_folder_quiet_ok:
  assumes "quiet w (self s)" and "include_re (self s) f \<and> \<not> exclude_re (self s) f"
  shows "\<exists>s'. check_folder (mailbox_env w no_faults) f hs s = (Inr hs, s') \<and> self s' = self s"
proof (cases "contains ''[Gmail]'' f")
  case True
  then show ?thesis by (simp add: check_folder_def return_def)
next
  case g: False
  with assms(2) have wf: "wanted (self s) f" by (simp add: wanted_def)
  show ?thesis
  proof (cases "boxes w f")
    case None
    with g show ?thesis
      by (auto simp: check_folder_def imap_select_def step mb_env no_faults_def)
  next
    case (Some ms)
    from quiet_hits [OF assms(1) wf Some] obtain mark where
      m: "last_uid (self s) f = Some mark" "hits (mark + 1) ms = []" by blast
    have sel: "selected_box w no_faults (Select f # history s) = Some ms"
      using Some by (simp add: selected_box_def no_faults_def)
    from g Some m sel show ?thesis
      by (auto simp: check_folder_def imap_select_def imap_search_def step
          mailbox_env_def mb_failure_def mb_select_def mb_strings_def no_faults_def)
  qed
qed

lemma check_loop_quiet:
  assumes "quiet w (self s)"
    and "\<forall>f \<in> set fs. include_re (self s) f \<and> \<not> exclude_re (self s) f"
    and "check_loop (mailbox_env w F) fs hs s = (r, s')"
  shows "self s' = self s \<and> (r = Inr hs \<or> isl r)"
  using assms
proof (induction fs arbitrary: s)
  case Nil
  then show ?case by (simp add: return_def)
next
  case (Cons f fs)
  obtain r1 s1 where c: "check_folder (mailbox_env w F) f hs s = (r1, s1)"
    by (cases "check_folder (mailbox_env w F) f hs s")
  from Cons.prems(2) have wf: "include_re (self s) f \<and> \<not> exclude_re (self s) f" by simp
  from check_folder_quiet [OF Cons.prems(1) wf c] have
    k: "self s1 = self s" "r1 = Inr hs \<or> isl r1"
    by simp_all
  show ?case
  proof (cases r1)
    case (Inl e)
    with Cons.prems(3) c k show ?thesis by (simp add: bind_error)
  next
    case (Inr hs1)
    with k have "hs1 = hs" by simp
    with Cons.prems(3) c Inr have "check_loop (mailbox_env w F) fs hs s1 = (r, s')"
      by (simp add: bind_result [where m = "check_folder (mailbox_env w F) f hs"])
    from Cons.IH [OF _ _ this] Cons.prems(1,2) k show ?thesis by simp
  qed
qed

lemma check_loop_quiet_ok:
  assumes "quiet w (self s)"
    and "\<forall>f \<in> set fs. include_re (self s) f \<and> \<not> exclude_re (self s) f"
  shows "\<exists>s'. check_loop (mailbox_env w no_faults) fs hs s = (Inr hs, s') \<and> self s' = self s"
  using assms
proof (induction fs arbitrary: s)
  case Nil
  then show ?case by (simp add: return_def)
next
  case (Cons f fs)
  from Cons.prems(2) have wf: "include_re (self s) f \<and> \<not> exclude_re (self s) f" by simp
  from check_folder_quiet_ok [OF Cons.prems(1) wf, of hs] obtain s1 where
    c: "check_folder (mailbox_env w no_faults) f hs s = (Inr hs, s1)" "self s1 = self s"
    by blast
  from Cons.IH [of s1] Cons.prems c(2) obtain s' where
    "check_loop (mailbox_env w no_faults) fs hs s1 = (Inr hs, s')" "self s' = self s1" by auto
  with c show ?case
    by (simp add: bind_result [where m = "check_folder (mailbox_env w no_faults) f hs"])
qed

lemma check_body_quiet:
  assumes "quiet w (self s)" and "check_body (mailbox_env w F) s = (r, s')"
  shows "self s' = self s \<and> (r = Inr [] \<or> isl r)"
proof -
  obtain r1 s1 where g: "get_folders (mailbox_env w F) s = (r1, s1)"
    by (cases "get_folders (mailbox_env w F) s")
  have k: "self s1 = self s"
    using keepsD [OF keeps_get_folders g, where field = "\<lambda>h. h"] by simp
  show ?thesis
  proof (cases r1)
    case (Inl e)
    with assms(2) g k show ?thesis by (auto simp: check_body_def bind_error)
  next
    case (Inr fs)
    with assms(2) g have "check_loop (mailbox_env w F) fs [] s1 = (r, s')"
      by (simp add: check_body_def bind_result [where m = "get_folders (mailbox_env w F)"])
    from check_loop_quiet [OF _ _ this] assms(1) k get_folders_filtered [OF g [unfolded Inr]]
    show ?thesis by simp
  qed
qed

lemma get_folders_mb_ok:
  assumes "those (map folder_re_match (listing w)) \<noteq> None"
  shows "\<exists>fs s1. get_folders (mailbox_env w no_faults) s = (Inr fs, s1) \<and> self s1 = self s"
  using assms
  by (auto simp: get_folders_def imap_list_def step mb_env no_faults_def)

lemma check_body_quiet_ok:
  assumes "quiet w (self s)" and "those (map folder_re_match (listing w)) \<noteq> None"
  shows "\<exists>s'. check_body (mailbox_env w no_faults) s = (Inr [], s') \<and> self s' = self s"
proof -
  from get_folders_mb_ok [OF assms(2), of s] obtain fs s1 where
    g: "get_folders (mailbox_env w no_faults) s = (Inr fs, s1)" "self s1 = self s" by blast
  from check_loop_quiet_ok [of w s1 fs "[]"] assms(1) g(2) get_folders_filtered [OF g(1)]
  obtain s' where
    "check_loop (mailbox_env w no_faults) fs [] s1 = (Inr [], s')" "self s' = self s1" by auto
  with g show ?thesis
    by (simp add: check_body_def bind_result [where m = "get_folders (mailbox_env w no_faults)"])
qed

section \<open>Folders whose mark is up to date\<close>

lemma caught_up_no_hits:
  assumes "caught_up w h f" and "boxes w f = Some ms" and "last_uid h f = Some mark"
  shows "hits (mark + 1) ms = []"
  using assms unfolding caught_up_def hits_Nil by fastforce

lemma check_folder_caught_up:
  assumes asc: "uids_ascending w"
    and run: "check_folder (mailbox_env w F) f hs s = (r, s')"
  shows "(caught_up w (self s) A \<longrightarrow>
            caught_up w (self s') A \<and> last_uid (self s') A = last_uid (self s) A \<and>
            (\<forall>hs'. r = Inr hs' \<longrightarrow> filter (from_folder A) hs' = filter (from_folder A) hs)) \<and>
         (last_uid (self s') A \<noteq> last_uid (self s) A \<longrightarrow> caught_up w (self s') A)"
  using check_folder_mb [OF asc run]
proof
  assume "self s' = self s \<and> (r = Inr hs \<or> isl r)"
  then show ?thesis by auto
next
  assume "\<exists>ms mark new. boxes w f = Some ms \<and> ms \<noteq> [] \<and> last_uid (self s) f = Some mark \<and>
            hits (mark + 1) ms \<noteq> [] \<and> mark < m_uid (last ms) \<and>
            self s' = set_mark f (m_uid (last ms)) (self s) \<and> r = Inr (hs @ new) \<and>
            (\<forall>h \<in> set new. tags h = [(''folder'', f)])"
  then obtain ms mark new where
    box: "boxes w f = Some ms" and ne: "ms \<noteq> []" and mark: "last_uid (self s) f = Some mark"
    and hit: "hits (mark + 1) ms \<noteq> []"
    and s': "self s' = set_mark f (m_uid (last ms)) (self s)" and r: "r = Inr (hs @ new)"
    and new: "\<forall>h \<in> set new. tags h = [(''folder'', f)]"
    by blast
  from asc box have sorted: "sorted_wrt (<) (map m_uid ms)"
    by (simp add: uids_ascending_def)
  show ?thesis
  proof (cases "A = f")
    case True
    have "\<not> caught_up w (self s) f"
      using caught_up_no_hits [OF _ box mark] hit by blast
    moreover have "caught_up w (self s') f"
      using box s' ascending_last [OF sorted]
      by (auto simp: caught_up_def set_mark_def)
    ultimately show ?thesis using True by simp
  next
    case False
    then have "filter (from_folder A) new = []"
      using new by (auto simp: filter_empty_conv from_folder_def)
    moreover have "last_uid (self s') A = last_uid (self s) A"
      using False s' by (simp add: set_mark_def)
    ultimately show ?thesis using r by (simp add: caught_up_def)
  qed
qed

lemma check_loop_caught_up:
  assumes asc: "uids_ascending w"
  shows "check_loop (mailbox_env w F) fs hs s = (r, s') \<Longrightarrow>
         (caught_up w (self s) A \<longrightarrow>
            caught_up w (self s') A \<and> last_uid (self s') A = last_uid (self s) A \<and>
            (\<forall>hs'. r = Inr hs' \<longrightarrow> filter (from_folder A) hs' = filter (from_folder A) hs)) \<and>
         (last_uid (self s') A \<noteq> last_uid (self s) A \<longrightarrow> caught_up w (self s') A)"
proof (induction fs arbitrary: hs s)
  case Nil
  then show ?case by (auto simp: return_def)
next
  case (Cons f fs)
  let ?E = "mailbox_env w F"
  obtain r1 s1 where c: "check_folder ?E f hs s = (r1, s1)" by (cases "check_folder ?E f hs s")
  note f1 = check_folder_caught_up [OF asc c, of A]
  show ?case
  proof (cases r1)
    case (Inl e)
    with Cons.prems c have "r = Inl e" "s' = s1" by (simp_all add: bind_error)
    with f1 show ?thesis by simp
  next
    case (Inr hs1)
    with Cons.prems c have l: "check_loop ?E fs hs1 s1 = (r, s')"
      by (simp add: bind_result [where m = "check_folder ?E f hs"])
    note f2 = Cons.IH [OF l]
    from f1 f2 Inr show ?thesis by (auto simp: caught_up_def)
  qed
qed

lemma check_body_caught_up:
  assumes asc: "uids_ascending w" and run: "check_body (mailbox_env w F) s = (r, s')"
  shows "(caught_up w (self s) A \<longrightarrow>
            caught_up w (self s') A \<and> last_uid (self s') A = last_uid (self s) A \<and>
            (\<forall>hs'. r = Inr hs' \<longrightarrow> filter (from_folder A) hs' = [])) \<and>
         (last_uid (self s') A \<noteq> last_uid (self s) A \<longrightarrow> caught_up w (self s') A)"
proof -
  let ?E = "mailbox_env w F"
  obtain r1 s1 where g: "get_folders ?E s = (r1, s1)" by (cases "get_folders ?E s")
  have k: "self s1 = self s"
    using keepsD [OF keeps_get_folders g, where field = "\<lambda>h. h"] by simp
  show ?thesis
  proof (cases r1)
    case (Inl e)
    with run g k show ?thesis by (auto simp: check_body_def bind_error)
  next
    case (Inr fs)
    with run g have "check_loop ?E fs [] s1 = (r, s')"
      by (simp add: check_body_def bind_result [where m = "get_folders ?E"])
    from check_loop_caught_up [OF asc this, of A] k show ?thesis by simp
  qed
qed

lemma check_caught_up:
  assumes asc: "uids_ascending w"
  shows "check n (mailbox_env w F) s = Some (r, s') \<Longrightarrow> caught_up w (self s) A \<Longrightarrow>
         last_uid (self s') A = last_uid (self s) A \<and>
         (\<forall>hs. r = Inr hs \<longrightarrow> filter (from_folder A) hs = [])"
proof (induction n arbitrary: s)
  case 0
  then show ?case by simp
next
  case (Suc n)
  let ?E = "mailbox_env w F"
  obtain r1 s1 where b: "check_body ?E s = (r1, s1)" by (cases "check_body ?E s")
  from check_body_caught_up [OF asc b, of A] Suc.prems(2) have
    k: "caught_up w (self s1) A" "last_uid (self s1) A = last_uid (self s) A"
      "\<forall>hs'. r1 = Inr hs' \<longrightarrow> filter (from_folder A) hs' = []"
    by simp_all
  show ?case
  proof (cases r1)
    case (Inr hs)
    with Suc.prems(1) b k show ?thesis by auto
  next
    case r1: (Inl e)
    show ?thesis
    proof (cases "\<not> caught e \<or> reraised e")
      case True
      with Suc.prems(1) b r1 k show ?thesis by auto
    next
      case False
      obtain r2 s2 where rc: "recover ?E s1 = (r2, s2)" by (cases "recover ?E s1")
      note m2 = recover_keeps_marks [OF rc]
      show ?thesis
      proof (cases r2)
        case (Inl e')
        with Suc.prems(1) b r1 False rc m2 k show ?thesis by auto
      next
        case (Inr u)
        with Suc.prems(1) b r1 False rc have c: "check n ?E s2 = Some (r, s')" by simp
        from k(1) m2 have "caught_up w (self s2) A" by (simp add: caught_up_def)
        from Suc.IH [OF c this] m2 k show ?thesis by simp
      qed
    qed
  qed
qed

lemma store_AB_ascending: "uids_ascending store_AB"
  by (auto simp: uids_ascending_def store_AB_def split: if_splits)

section \<open>Initialization against a mail store\<close>

lemma show_nat_zero: "show_nat n = ''0'' \<longleftrightarrow> n = 0"
proof
  assume "show_nat n = ''0''"
  then have "int_of_digits (show_nat n) = int_of_digits ''0''" by simp
  moreover have "int_of_digits ''0'' = 0" by (simp add: int_of_digits_def digit_val_def)
  ultimately show "n = 0" by (simp add: int_of_show)
next
  assume "n = 0"
  then show "show_nat n = ''0''" by (simp add: show_nat.simps digit_char_def)
qed

lemma init_folder_mb:
  assumes "init_folder (mailbox_env w F) f s = (Inr u, s')"
  shows "self s' =
           (if contains ''[Gmail]'' f then self s
            else case boxes w f of
                   None \<Rightarrow> self s
                 | Some ms \<Rightarrow> set_mark f (if ms = [] then 0 else m_uid (last ms)) (self s))"
proof (cases "contains ''[Gmail]'' f")
  case True
  with assms show ?thesis by (simp add: init_folder_def return_def)
next
  case g: False
  show ?thesis
  proof (cases "F (length (history s))")
    case (Some e)
    with assms g show ?thesis
      by (simp add: init_folder_def imap_select_def step mb_env)
  next
    case f1: None
    show ?thesis
    proof (cases "boxes w f")
      case None
      with assms g f1 show ?thesis
        by (auto simp: init_folder_def imap_select_def step mb_env)
    next
      case box: (Some ms)
      have sel: "selected_box w F (Select f # history s) = Some ms"
        using f1 box by (simp add: selected_box_def)
      show ?thesis
      proof (cases "ms = []")
        case True
        with assms g f1 box show ?thesis
          by (auto simp: init_folder_def imap_select_def step mailbox_env_def mb_failure_def
              mb_select_def show_nat_zero modify_def)
      next
        case ne: False
        then have nz: "show_nat (length ms) \<noteq> ''0''" by (simp add: show_nat_zero)
        from assms g f1 box sel ne nz show ?thesis
          by (cases "F (Suc (length (history s)))")
             (auto simp: init_folder_def imap_select_def imap_fetch_uid_def step
                mailbox_env_def mb_failure_def mb_select_def mb_strings_def modify_def
                msg_number_count uid_envelope_last)
      qed
    qed
  qed
qed

lemma set_last_uids_loop_mb:
  "set_last_uids_loop (mailbox_env w F) fs s = (Inr u, s') \<Longrightarrow>
   last_uid (self s') f =
     (if f \<in> set (polled fs)
      then (case boxes w f of
              None \<Rightarrow> last_uid (self s) f
            | Some ms \<Rightarrow> Some (if ms = [] then 0 else m_uid (last ms)))
      else last_uid (self s) f)"
proof (induction fs arbitrary: s)
  case Nil
  then show ?case by (simp add: return_def polled_def)
next
  case (Cons g fs)
  let ?E = "mailbox_env w F"
  obtain r1 s1 where c: "init_folder ?E g s = (r1, s1)" by (cases "init_folder ?E g s")
  show ?case
  proof (cases r1)
    case (Inl e)
    with Cons.prems c show ?thesis by (simp add: bind_error)
  next
    case (Inr v)
    with Cons.prems c have l: "set_last_uids_loop ?E fs s1 = (Inr u, s')"
      by (simp add: bind_result [where m = "init_folder ?E g"])
    from init_folder_mb [of w F g s v s1] c Inr have
      s1: "self s1 =
           (if contains ''[Gmail]'' g then self s
            else case boxes w g of
                   None \<Rightarrow> self s
                 | Some ms \<Rightarrow> set_mark g (if ms = [] then 0 else m_uid (last ms)) (self s))"
      by simp
    from Cons.IH [OF l] s1 show ?thesis
      by (auto simp: polled_def set_mark_def split: option.splits)
  qed
qed

section \<open>Claim C1: the marks over a sequence of checks\<close>

lemma race_state_init:
  "init (mailbox_env (store_inbox [1, 2, 3]) no_faults) ''mail'' ''user'' ''secret'' None False
     (\<lambda>_. True) (\<lambda>_. False) False [] = Inr race_state"
  by (simp add: handler_all io_all str_all mb_all store_inbox_def handler_AB_def race_state_def)

text \<open>
  C1, as stated, fails.  The mark of a folder is assigned the UID of the message whose
  number \<^verbatim>\<open>select\<close> reported, whatever the search returned afterwards.  Here the mark is 3,
  the folder holds the UIDs 1 and 2 when it is opened, and the message with UID 4 arrives
  before the search: the search finds it, its header is returned, and the mark becomes 2.
\<close>

theorem marks_can_decrease:
  "last_uid (self race_state) ''INBOX'' = Some 3 \<and>
   check (Suc 0) (changing_env arrival) race_state =
     Some (Inr [\<lparr>raw = ''Subject: m'', tags = [(''folder'', ''INBOX'')]\<rparr>],
           race_state\<lparr>self := set_mark ''INBOX'' 2 (self race_state),
                       history := FetchUid ''2'' # FetchHeader ''3'' # Search 4 #
                                  Select ''INBOX'' # ListFolders # history race_state\<rparr>) \<and>
   last_uid (set_mark ''INBOX'' 2 (self race_state)) ''INBOX'' = Some 2"
  by (simp add: handler_all io_all str_all mb_all changing_env_def arrival_def store_inbox_def
      handler_AB_def race_state_def)

text \<open>
  C1, amended.  Let the server answer a \<^verbatim>\<open>check\<close> from a mail store that does not change
  during the call and whose UIDs grow strictly with the sequence number, the transport
  failing where it will.  Then whatever the call returns, every folder that had a mark has
  one afterwards, and it is not smaller.  So over any sequence of such calls no mark ever
  decreases.
\<close>

theorem marks_never_decrease:
  assumes "uids_ascending w"
    and "check n (mailbox_env w F) s = Some (r, s')"
    and "last_uid (self s) folder = Some m"
  shows "\<exists>m'. last_uid (self s') folder = Some m' \<and> m \<le> m'"
proof -
  let ?R = "\<lambda>a b :: string \<rightharpoonup> nat. \<forall>g m. a g = Some m \<longrightarrow> (\<exists>m'. b g = Some m' \<and> m \<le> m')"
  have "?R (last_uid (self s)) (last_uid (self s'))"
  proof (rule check_marks_rel [where R = ?R, OF _ _ _ assms(2)])
    show "?R (last_uid (self s)) (last_uid (self s'))"
      if "check_folder (mailbox_env w F) f hs s = (r, s')" for f hs s r s'
      using check_folder_marks_grow [OF assms(1) that] by blast
    show "?R h h" for h by simp
    show "?R a c" if "?R a b" "?R b c" for a b c
      using that by (meson le_trans)
  qed
  with assms(3) show ?thesis by blast
qed

text \<open>
  On the two-folder store, with an abort after folder \<open>A\<close> has been processed: the mark of
  \<open>A\<close> goes from 1 to 5.
\<close>

theorem marks_never_decrease_witness:
  "uids_ascending store_AB \<and>
   last_uid (handler_AB 143 [''A'' \<mapsto> 1, ''B'' \<mapsto> 0]) ''A'' = Some 1 \<and>
   (\<exists>r s' m'. check (Suc (Suc 0)) (mailbox_env store_AB (fault_at 5 Abort))
                 \<lparr>self = handler_AB 143 [''A'' \<mapsto> 1, ''B'' \<mapsto> 0], history = []\<rparr> = Some (r, s') \<and>
               last_uid (self s') ''A'' = Some m' \<and> 1 \<le> m')"
proof -
  let ?s = "\<lparr>self = handler_AB 143 [''A'' \<mapsto> 1, ''B'' \<mapsto> 0], history = []\<rparr>"
  let ?E = "mailbox_env store_AB (fault_at 5 Abort)"
  have m: "last_uid (self ?s) ''A'' = Some 1"
    by (simp add: handler_AB_def)
  have c: "map_option fst (check (Suc (Suc 0)) ?E ?s) =
      Some (Inr [\<lparr>raw = ''Subject: b1'', tags = [(''folder'', ''B'')]\<rparr>])"
    by (simp add: handler_all io_all str_all mb_all store_AB_def handler_AB_def
        caught_def reraised_def)
  note c' = result_some [OF c]
  from marks_never_decrease [OF store_AB_ascending c' m] c' m store_AB_ascending
  show ?thesis by (auto simp del: check.simps)
qed

section \<open>Claim C2: the retry after a transient failure\<close>

text \<open>
  C2, as stated, fails.  The retry runs \<^verbatim>\<open>check\<close> from the beginning and searches every
  folder again, from its mark.  On the two-folder store the transport aborts at request 5,
  the \<^verbatim>\<open>select\<close> of \<open>B\<close>, after \<open>A\<close> has been processed and its mark advanced from 1 to 5.
  While the handler reconnects, a message with UID 6 arrives in \<open>A\<close>.  The retry returns
  its header before the header of \<open>B\<close>: the headers are not only from \<open>B\<close> onward.
\<close>

theorem retry_returns_advanced_folder:
  "fst (check_body (unstable_env late_arrival (fault_at 5 Abort))
          \<lparr>self = handler_AB 143 [''A'' \<mapsto> 1, ''B'' \<mapsto> 0], history = []\<rparr>) = Inl Abort \<and>
   history (snd (check_body (unstable_env late_arrival (fault_at 5 Abort))
          \<lparr>self = handler_AB 143 [''A'' \<mapsto> 1, ''B'' \<mapsto> 0], history = []\<rparr>)) =
     [Select ''B'', FetchUid ''2'', FetchHeader ''2'', Search 2, Select ''A'', ListFolders] \<and>
   last_uid (handler_AB 143 [''A'' \<mapsto> 1, ''B'' \<mapsto> 0]) ''A'' = Some 1 \<and>
   last_uid (self (snd (check_body (unstable_env late_arrival (fault_at 5 Abort))
          \<lparr>self = handler_AB 143 [''A'' \<mapsto> 1, ''B'' \<mapsto> 0], history = []\<rparr>))) ''A'' = Some 5 \<and>
   map_option fst (check (Suc (Suc 0)) (unstable_env late_arrival (fault_at 5 Abort))
          \<lparr>self = handler_AB 143 [''A'' \<mapsto> 1, ''B'' \<mapsto> 0], history = []\<rparr>) =
     Some (Inr [\<lparr>raw = ''Subject: a3'', tags = [(''folder'', ''A'')]\<rparr>,
                \<lparr>raw = ''Subject: b1'', tags = [(''folder'', ''B'')]\<rparr>]) \<and>
   from_folder ''A'' \<lparr>raw = ''Subject: a3'', tags = [(''folder'', ''A'')]\<rparr>"
  by (simp add: handler_all io_all str_all mb_all unstable_env_def late_arrival_def store_AB_def
      store_AB_later_def handler_AB_def caught_def reraised_def from_folder_def)

text \<open>
  C2, amended.  Let the server answer from a mail store with strictly growing UIDs that
  does not change from the failed attempt to the end of the retry.  If the first attempt of
  a \<^verbatim>\<open>check\<close> ends in a session abort or the SSL error with code 8 after it has advanced the
  mark of a folder \<open>A\<close>, and the \<^verbatim>\<open>check\<close>, run again from the beginning after the recovery,
  returns headers, then none of them comes from \<open>A\<close>, and the mark of \<open>A\<close> is the one the
  failed attempt wrote.
\<close>

theorem retry_skips_advanced_folder:
  assumes "uids_ascending w"
    and "check_body (mailbox_env w F) s = (Inl e, s1)"
    and "e = Abort \<or> e = SslError 8"
    and "last_uid (self s1) A \<noteq> last_uid (self s) A"
    and "check (Suc n) (mailbox_env w F) s = Some (Inr hs, s')"
  shows "(\<forall>h \<in> set hs. \<not> from_folder A h) \<and> last_uid (self s') A = last_uid (self s1) A"
proof -
  let ?E = "mailbox_env w F"
  from assms(3) have ce: "caught e" "\<not> reraised e" using transient_iff [of e] by blast+
  from check_body_caught_up [OF assms(1,2), of A] assms(4) have c1: "caught_up w (self s1) A"
    by simp
  obtain r2 s2 where rc: "recover ?E s1 = (r2, s2)" by (cases "recover ?E s1")
  note m2 = recover_keeps_marks [OF rc]
  show ?thesis
  proof (cases r2)
    case (Inl e')
    with check_recover_fail [OF assms(2) ce, of e' s2 n] rc assms(5) show ?thesis by simp
  next
    case (Inr u)
    with check_retry [OF assms(2) ce, of u s2 n] rc assms(5)
    have c: "check n ?E s2 = Some (Inr hs, s')" by simp
    from c1 m2 have "caught_up w (self s2) A" by (simp add: caught_up_def)
    from check_caught_up [OF assms(1) c this] m2 show ?thesis
      by (auto simp: filter_empty_conv)
  qed
qed

text \<open>
  On the two-folder store the transport aborts at request 5, the \<^verbatim>\<open>select\<close> of \<open>B\<close>, after
  \<open>A\<close> has been processed and its mark advanced from 1 to 5.  The retry returns the header
  of \<open>B\<close> alone.
\<close>

theorem retry_skips_advanced_folder_witness:
  "uids_ascending store_AB \<and>
   fst (check_body (mailbox_env store_AB (fault_at 5 Abort))
          \<lparr>self = handler_AB 143 [''A'' \<mapsto> 1, ''B'' \<mapsto> 0], history = []\<rparr>) = Inl Abort \<and>
   last_uid (self (snd (check_body (mailbox_env store_AB (fault_at 5 Abort))
          \<lparr>self = handler_AB 143 [''A'' \<mapsto> 1, ''B'' \<mapsto> 0], history = []\<rparr>))) ''A'' = Some 5 \<and>
   last_uid (handler_AB 143 [''A'' \<mapsto> 1, ''B'' \<mapsto> 0]) ''A'' = Some 1 \<and>
   (\<exists>s'. check (Suc (Suc 0)) (mailbox_env store_AB (fault_at 5 Abort))
            \<lparr>self = handler_AB 143 [''A'' \<mapsto> 1, ''B'' \<mapsto> 0], history = []\<rparr> =
          Some (Inr [\<lparr>raw = ''Subject: b1'', tags = [(''folder'', ''B'')]\<rparr>], s') \<and>
          last_uid (self s') ''A'' = Some 5) \<and>
   \<not> from_folder ''A'' \<lparr>raw = ''Subject: b1'', tags = [(''folder'', ''B'')]\<rparr>"
proof -
  let ?s = "\<lparr>self = handler_AB 143 [''A'' \<mapsto> 1, ''B'' \<mapsto> 0], history = []\<rparr>"
  let ?E = "mailbox_env store_AB (fault_at 5 Abort)"
  let ?b = "\<lparr>raw = ''Subject: b1'', tags = [(''folder'', ''B'')]\<rparr>"
  have b: "fst (check_body ?E ?s) = Inl Abort"
    by (simp add: handler_all io_all str_all mb_all store_AB_def handler_AB_def)
  have a: "last_uid (self (snd (check_body ?E ?s))) ''A'' = Some 5"
    by (simp add: handler_all io_all str_all mb_all store_AB_def handler_AB_def)
  have m: "last_uid (self ?s) ''A'' = Some 1"
    by (simp add: handler_AB_def)
  have c: "map_option fst (check (Suc (Suc 0)) ?E ?s) = Some (Inr [?b])"
    by (simp add: handler_all io_all str_all mb_all store_AB_def handler_AB_def
        caught_def reraised_def)
  note c' = result_some [OF c]
  from a m have d: "last_uid (self (snd (check_body ?E ?s))) ''A'' \<noteq> last_uid (self ?s) ''A''"
    by simp
  note t = retry_skips_advanced_folder [OF store_AB_ascending result_pair [OF b]
      disjI1 [OF refl] d c']
  from t a have "\<not> from_folder ''A'' ?b \<and>
      last_uid (self (snd (the (check (Suc (Suc 0)) ?E ?s)))) ''A'' = Some 5"
    by (simp del: check.simps)
  with c' have "(\<exists>s'. check (Suc (Suc 0)) ?E ?s = Some (Inr [?b], s') \<and>
      last_uid (self s') ''A'' = Some 5) \<and> \<not> from_folder ''A'' ?b"
    by blast
  with store_AB_ascending b a m show ?thesis
    by (simp del: check.simps)
qed

section \<open>Claim C3: a check without new messages\<close>

text \<open>
  C3.  Let the server answer from a mail store in which every folder that the filter
  patterns let through, outside the Gmail tree, and that can be opened has a mark and holds
  no unseen message with a UID above it.  Then whatever a \<^verbatim>\<open>check\<close>
  returns, with the transport failing where it will, the marks are those it started with,
  and if it returns headers it returns none.  If moreover the listing is well-formed and the
  transport does not fail, \<^verbatim>\<open>check\<close> does return: the empty sequence.
\<close>

theorem quiet_check_returns_nothing:
  assumes "quiet w (self s)"
  shows "(check n (mailbox_env w F) s = Some (r, s') \<longrightarrow>
            last_uid (self s') = last_uid (self s) \<and> (\<forall>hs. r = Inr hs \<longrightarrow> hs = [])) \<and>
         (those (map folder_re_match (listing w)) \<noteq> None \<longrightarrow>
            (\<exists>s''. check (Suc n) (mailbox_env w no_faults) s = Some (Inr [], s'') \<and>
                   last_uid (self s'') = last_uid (self s)))"
proof -
  have one: "last_uid (self s') = last_uid (self s) \<and> (\<forall>hs. r = Inr hs \<longrightarrow> hs = [])"
    if "check n (mailbox_env w F) s = Some (r, s')"
    using that assms
  proof (induction n arbitrary: s)
    case 0
    then show ?case by simp
  next
    case (Suc n)
    let ?E = "mailbox_env w F"
    obtain r1 s1 where b: "check_body ?E s = (r1, s1)" by (cases "check_body ?E s")
    from check_body_quiet [OF Suc.prems(2) b] have k: "self s1 = self s" "r1 = Inr [] \<or> isl r1"
      by simp_all
    show ?case
    proof (cases r1)
      case (Inr hs)
      with k have "hs = []" by simp
      with Suc.prems(1) b Inr k show ?thesis by auto
    next
      case r1: (Inl e)
      show ?thesis
      proof (cases "\<not> caught e \<or> reraised e")
        case True
        with Suc.prems(1) b r1 k show ?thesis by auto
      next
        case False
        obtain r2 s2 where rc: "recover ?E s1 = (r2, s2)" by (cases "recover ?E s1")
        note m2 = recover_keeps_marks [OF rc]
          keepsD [OF keeps_recover rc, where field = include_re, simplified]
          keepsD [OF keeps_recover rc, where field = exclude_re, simplified]
        show ?thesis
        proof (cases r2)
          case (Inl e')
          with Suc.prems(1) b r1 False rc m2 k show ?thesis by auto
        next
          case (Inr u)
          with Suc.prems(1) b r1 False rc have c: "check n ?E s2 = Some (r, s')" by simp
          from Suc.prems(2) m2 k have "quiet w (self s2)" by (simp add: quiet_def wanted_def)
          from Suc.IH [OF c this] m2 k show ?thesis by simp
        qed
      qed
    qed
  qed
  have two: "\<exists>s''. check (Suc n) (mailbox_env w no_faults) s = Some (Inr [], s'') \<and>
                   last_uid (self s'') = last_uid (self s)"
    if "those (map folder_re_match (listing w)) \<noteq> None"
  proof -
    from check_body_quiet_ok [OF assms that] obtain s'' where
      "check_body (mailbox_env w no_faults) s = (Inr [], s'')" "self s'' = self s" by blast
    then show ?thesis by simp
  qed
  from one two show ?thesis by blast
qed

text \<open>
  The two-folder store with marks 5 and 7: nothing is returned and the marks stay, also
  when the first attempt is aborted.
\<close>

theorem quiet_check_returns_nothing_witness:
  "quiet store_AB (handler_AB 143 [''A'' \<mapsto> 5, ''B'' \<mapsto> 7]) \<and>
   those (map folder_re_match (listing store_AB)) \<noteq> None \<and>
   (\<exists>s'. check (Suc (Suc 0)) (mailbox_env store_AB (fault_at 1 Abort))
            \<lparr>self = handler_AB 143 [''A'' \<mapsto> 5, ''B'' \<mapsto> 7], history = []\<rparr> = Some (Inr [], s') \<and>
          last_uid (self s') = [''A'' \<mapsto> 5, ''B'' \<mapsto> 7]) \<and>
   (\<exists>s''. check (Suc 0) (mailbox_env store_AB no_faults)
            \<lparr>self = handler_AB 143 [''A'' \<mapsto> 5, ''B'' \<mapsto> 7], history = []\<rparr> = Some (Inr [], s'') \<and>
          last_uid (self s'') = [''A'' \<mapsto> 5, ''B'' \<mapsto> 7])"
proof -
  let ?s = "\<lparr>self = handler_AB 143 [''A'' \<mapsto> 5, ''B'' \<mapsto> 7], history = []\<rparr>"
  let ?F = "mailbox_env store_AB (fault_at 1 Abort)"
  have q: "quiet store_AB (self ?s)"
    by (auto simp: quiet_def wanted_def store_AB_def handler_AB_def split: if_splits)
  have l: "those (map folder_re_match (listing store_AB)) \<noteq> None"
    by (simp add: str_all store_AB_def)
  have m: "last_uid (self ?s) = [''A'' \<mapsto> 5, ''B'' \<mapsto> 7]"
    by (simp add: handler_AB_def)
  have c: "map_option fst (check (Suc (Suc 0)) ?F ?s) = Some (Inr [])"
    by (simp add: handler_all io_all str_all mb_all store_AB_def handler_AB_def
        caught_def reraised_def)
  note c' = result_some [OF c]
  note t = quiet_check_returns_nothing [OF q]
  from t [of "Suc (Suc 0)" "fault_at 1 Abort", THEN conjunct1, rule_format, OF c'] m
  have "last_uid (self (snd (the (check (Suc (Suc 0)) ?F ?s)))) = [''A'' \<mapsto> 5, ''B'' \<mapsto> 7]"
    by (simp del: check.simps)
  with c' have p1: "\<exists>s'. check (Suc (Suc 0)) ?F ?s = Some (Inr [], s') \<and>
          last_uid (self s') = [''A'' \<mapsto> 5, ''B'' \<mapsto> 7]"
    by blast
  from t [of 0 F r s', THEN conjunct2, rule_format, OF l] m
  have p2: "\<exists>s''. check (Suc 0) (mailbox_env store_AB no_faults) ?s = Some (Inr [], s'') \<and>
          last_uid (self s'') = [''A'' \<mapsto> 5, ''B'' \<mapsto> 7]"
    by (simp del: check.simps)
  from q l p1 p2 show ?thesis by (simp del: check.simps)
qed

section \<open>Claim C4: which errors start the recovery\<close>

text \<open>
  C4.  When the body of \<^verbatim>\<open>check\<close> raises an error other than a session abort or the
  socket SSL error with code 8 (another SSL error code, a protocol-level error, a parse
  failure, anything else), \<^verbatim>\<open>check\<close> returns that very error in the state the body left:
  no session is rebuilt.  When the error is an abort or the SSL error with code 8,
  \<^verbatim>\<open>check\<close> takes the recovery path, and whatever it returns, the first request after the
  failure was the connection of a fresh session to the configured server.  The path has
  three steps.
  \<^item> Rebuild: the handler connects to \<^verbatim>\<open>self.server\<close>, with SSL as the old session had it.
    An error of that connection is what \<^verbatim>\<open>check\<close> returns, the old session still stored.
    Otherwise the fresh session is stored.
  \<^item> Re-authenticate: on the fresh session the handler runs the GSSAPI authentication if
    \<^verbatim>\<open>self.gssapi\<close> is set and the login with the stored user name and password otherwise,
    so the next request is that \<^verbatim>\<open>authenticate\<close> or \<^verbatim>\<open>login\<close>.  The session and the marks
    are as before it.  An error of the authentication is what \<^verbatim>\<open>check\<close> returns.
  \<^item> Retry: otherwise the result of \<^verbatim>\<open>check\<close> is the result of \<^verbatim>\<open>check\<close> run again in the
    state the authentication left, with the depth bound of the recursion one smaller; that
    run starts anew, by listing the folders.
\<close>

theorem check_recovers_only_transient:
  assumes "check_body E s = (Inl e, s1)"
  shows "(e \<noteq> Abort \<and> e \<noteq> SslError 8 \<longrightarrow> check (Suc n) E s = Some (Inl e, s1)) \<and>
         (e = Abort \<or> e = SslError 8 \<longrightarrow>
            (\<forall>r s'. check (Suc n) E s = Some (r, s') \<longrightarrow>
               (\<exists>pre. history s' =
                  pre @ Connect (server (self s1)) (default_port (s_ssl (imap (self s1))))
                          (s_ssl (imap (self s1))) # history s1))) \<and>
         (e = Abort \<or> e = SslError 8 \<longrightarrow>
            (let h = self s1;
                 connect = Connect (server h) (default_port (s_ssl (imap h))) (s_ssl (imap h));
                 login = (if gssapi h then Authenticate ''GSSAPI''
                          else Login (username h) (password h))
             in case failure E (connect # history s1) of
                  Some e' \<Rightarrow>
                    check (Suc n) E s = Some (Inl e', s1\<lparr>history := connect # history s1\<rparr>)
                | None \<Rightarrow>
                    (case (if gssapi h then imap_authenticate E ''GSSAPI''
                           else imap_login E (username h) (password h))
                            \<lparr>self = h\<lparr>imap := fresh_session h\<rparr>,
                             history = connect # history s1\<rparr> of
                       (r2, s2) \<Rightarrow>
                         imap (self s2) = fresh_session h \<and>
                         last_uid (self s2) = last_uid h \<and>
                         (\<exists>pre. history s2 = pre @ login # connect # history s1) \<and>
                         (case r2 of
                            Inl e' \<Rightarrow> check (Suc n) E s = Some (Inl e', s2)
                          | Inr u \<Rightarrow>
                              check (Suc n) E s = check n E s2 \<and>
                              (\<forall>r s'. check n E s2 = Some (r, s') \<longrightarrow>
                                 (\<exists>pre. history s' = pre @ ListFolders # history s2))))))"
proof -
  let ?h = "self s1"
  let ?connect = "Connect (server ?h) (default_port (s_ssl (imap ?h))) (s_ssl (imap ?h))"
  let ?login = "if gssapi ?h then Authenticate ''GSSAPI'' else Login (username ?h) (password ?h)"
  let ?rebuilt = "\<lparr>self = ?h\<lparr>imap := fresh_session ?h\<rparr>, history = ?connect # history s1\<rparr>"
  let ?auth = "if gssapi ?h then imap_authenticate E ''GSSAPI''
               else imap_login E (username ?h) (password ?h)"
  have one: "check (Suc n) E s = Some (Inl e, s1)" if "e \<noteq> Abort \<and> e \<noteq> SslError 8"
  proof -
    from that have "\<not> caught e \<or> reraised e" using transient_iff [of e] by blast
    with assms show ?thesis by (rule check_propagate)
  qed
  have two: "\<exists>pre. history s' = pre @ ?connect # history s1"
    if t: "e = Abort \<or> e = SslError 8" and c: "check (Suc n) E s = Some (r, s')" for r s'
  proof -
    from t have ce: "caught e" "\<not> reraised e" using transient_iff [of e] by blast+
    obtain r2 s2 where rc: "recover E s1 = (r2, s2)" by (cases "recover E s1")
    from recover_history [OF rc] obtain p2 where
      p2: "history s2 = p2 @ ?connect # history s1" by blast
    show ?thesis
    proof (cases r2)
      case (Inl e')
      with check_recover_fail [OF assms ce, of e' s2 n] rc c have "s' = s2" by simp
      with p2 show ?thesis by blast
    next
      case (Inr u)
      with check_retry [OF assms ce, of u s2 n] rc c have "check n E s2 = Some (r, s')" by simp
      from check_history [OF this] obtain p3 where "history s' = p3 @ history s2" by blast
      with p2 have "history s' = (p3 @ p2) @ ?connect # history s1" by simp
      then show ?thesis by blast
    qed
  qed
  have three: "case failure E (?connect # history s1) of
                  Some e' \<Rightarrow>
                    check (Suc n) E s = Some (Inl e', s1\<lparr>history := ?connect # history s1\<rparr>)
                | None \<Rightarrow>
                    (case ?auth ?rebuilt of
                       (r2, s2) \<Rightarrow>
                         imap (self s2) = fresh_session ?h \<and>
                         last_uid (self s2) = last_uid ?h \<and>
                         (\<exists>pre. history s2 = pre @ ?login # ?connect # history s1) \<and>
                         (case r2 of
                            Inl e' \<Rightarrow> check (Suc n) E s = Some (Inl e', s2)
                          | Inr u \<Rightarrow>
                              check (Suc n) E s = check n E s2 \<and>
                              (\<forall>r s'. check n E s2 = Some (r, s') \<longrightarrow>
                                 (\<exists>pre. history s' = pre @ ListFolders # history s2))))"
    if t: "e = Abort \<or> e = SslError 8"
  proof -
    from t have ce: "caught e" "\<not> reraised e" using transient_iff [of e] by blast+
    show ?thesis
    proof (cases "failure E (?connect # history s1)")
      case (Some e')
      then have "recover E s1 = (Inl e', s1\<lparr>history := ?connect # history s1\<rparr>)"
        by (simp add: recover_steps)
      from check_recover_fail [OF assms ce this] Some show ?thesis by simp
    next
      case None
      obtain r2 s2 where a: "?auth ?rebuilt = (r2, s2)" by (cases "?auth ?rebuilt")
      with None have rc: "recover E s1 = (r2, s2)" by (simp add: recover_steps)
      from reauth_keeps_session [OF a] have i: "imap (self s2) = fresh_session ?h" by simp
      from keepsD [OF keeps_recover rc, where field = last_uid]
      have m: "last_uid (self s2) = last_uid ?h" by simp
      from reauth_history [OF a] have hi: "\<exists>pre. history s2 = pre @ ?login # ?connect # history s1"
        by simp
      have "case r2 of
              Inl e' \<Rightarrow> check (Suc n) E s = Some (Inl e', s2)
            | Inr u \<Rightarrow>
                check (Suc n) E s = check n E s2 \<and>
                (\<forall>r s'. check n E s2 = Some (r, s') \<longrightarrow>
                   (\<exists>pre. history s' = pre @ ListFolders # history s2))"
      proof (cases r2)
        case (Inl e')
        with check_recover_fail [OF assms ce, of e' s2 n] rc show ?thesis by simp
      next
        case (Inr u)
        with check_retry [OF assms ce, of u s2 n] rc check_first_request [of n E s2]
        show ?thesis by simp
      qed
      with None a i m hi show ?thesis by simp
    qed
  qed
  from one two three show ?thesis unfolding Let_def by blast
qed

text \<open>
  On the two-folder store: an SSL error with code 2 at the first \<^verbatim>\<open>select\<close> reaches the
  caller.  An abort at the same place makes the handler reconnect and log in, and the
  second run returns the headers of both folders.  When the reconnection fails with a
  socket error, or the login is refused, \<^verbatim>\<open>check\<close> returns that error.
\<close>

theorem check_recovers_only_transient_witness:
  "fst (check_body (mailbox_env store_AB (fault_at 1 (SslError 2)))
          \<lparr>self = handler_AB 143 [''A'' \<mapsto> 1, ''B'' \<mapsto> 0], history = []\<rparr>) = Inl (SslError 2) \<and>
   map_option fst (check (Suc 0) (mailbox_env store_AB (fault_at 1 (SslError 2)))
          \<lparr>self = handler_AB 143 [''A'' \<mapsto> 1, ''B'' \<mapsto> 0], history = []\<rparr>) = Some (Inl (SslError 2)) \<and>
   fst (check_body (mailbox_env store_AB (fault_at 1 Abort))
          \<lparr>self = handler_AB 143 [''A'' \<mapsto> 1, ''B'' \<mapsto> 0], history = []\<rparr>) = Inl Abort \<and>
   (\<exists>r s'. check (Suc (Suc 0)) (mailbox_env store_AB (fault_at 1 Abort))
          \<lparr>self = handler_AB 143 [''A'' \<mapsto> 1, ''B'' \<mapsto> 0], history = []\<rparr> = Some (r, s') \<and>
      Connect ''mail'' 143 False \<in> set (history s')) \<and>
   check (Suc (Suc 0)) (mailbox_env store_AB (fault_at 1 Abort))
          \<lparr>self = handler_AB 143 [''A'' \<mapsto> 1, ''B'' \<mapsto> 0], history = []\<rparr> =
     check (Suc 0) (mailbox_env store_AB (fault_at 1 Abort))
          \<lparr>self = handler_AB 143 [''A'' \<mapsto> 1, ''B'' \<mapsto> 0],
           history = [Login ''user'' ''secret'', Connect ''mail'' 143 False, Select ''A'',
                      ListFolders]\<rparr> \<and>
   map_option fst (check (Suc (Suc 0)) (mailbox_env store_AB (fault_at 1 Abort))
          \<lparr>self = handler_AB 143 [''A'' \<mapsto> 1, ''B'' \<mapsto> 0], history = []\<rparr>) =
     Some (Inr [\<lparr>raw = ''Subject: a2'', tags = [(''folder'', ''A'')]\<rparr>,
                \<lparr>raw = ''Subject: b1'', tags = [(''folder'', ''B'')]\<rparr>]) \<and>
   check (Suc 0) (mailbox_env store_AB ((fault_at 1 Abort)(2 \<mapsto> SocketError)))
          \<lparr>self = handler_AB 143 [''A'' \<mapsto> 1, ''B'' \<mapsto> 0], history = []\<rparr> =
     Some (Inl SocketError,
           \<lparr>self = handler_AB 143 [''A'' \<mapsto> 1, ''B'' \<mapsto> 0],
            history = [Connect ''mail'' 143 False, Select ''A'', ListFolders]\<rparr>) \<and>
   check (Suc 0) (mailbox_env store_AB ((fault_at 1 Abort)(3 \<mapsto> ImapError)))
          \<lparr>self = handler_AB 143 [''A'' \<mapsto> 1, ''B'' \<mapsto> 0], history = []\<rparr> =
     Some (Inl ImapError,
           \<lparr>self = handler_AB 143 [''A'' \<mapsto> 1, ''B'' \<mapsto> 0],
            history = [Login ''user'' ''secret'', Connect ''mail'' 143 False, Select ''A'',
                       ListFolders]\<rparr>)"
proof -
  let ?s = "\<lparr>self = handler_AB 143 [''A'' \<mapsto> 1, ''B'' \<mapsto> 0], history = []\<rparr>"
  let ?sb = "\<lparr>self = handler_AB 143 [''A'' \<mapsto> 1, ''B'' \<mapsto> 0],
             history = [Select ''A'', ListFolders]\<rparr>"
  let ?E1 = "mailbox_env store_AB (fault_at 1 (SslError 2))"
  let ?E2 = "mailbox_env store_AB (fault_at 1 Abort)"
  let ?E3 = "mailbox_env store_AB ((fault_at 1 Abort)(2 \<mapsto> SocketError))"
  let ?E4 = "mailbox_env store_AB ((fault_at 1 Abort)(3 \<mapsto> ImapError))"
  have b1: "fst (check_body ?E1 ?s) = Inl (SslError 2)"
    by (simp add: handler_all io_all str_all mb_all store_AB_def handler_AB_def)
  have b2: "check_body ?E2 ?s = (Inl Abort, ?sb)"
    by (simp add: handler_all io_all str_all mb_all store_AB_def handler_AB_def)
  have b3: "check_body ?E3 ?s = (Inl Abort, ?sb)"
    by (simp add: handler_all io_all str_all mb_all store_AB_def handler_AB_def)
  have b4: "check_body ?E4 ?s = (Inl Abort, ?sb)"
    by (simp add: handler_all io_all str_all mb_all store_AB_def handler_AB_def)
  have c2: "map_option fst (check (Suc (Suc 0)) ?E2 ?s) =
      Some (Inr [\<lparr>raw = ''Subject: a2'', tags = [(''folder'', ''A'')]\<rparr>,
                 \<lparr>raw = ''Subject: b1'', tags = [(''folder'', ''B'')]\<rparr>])"
    by (simp add: handler_all io_all str_all mb_all store_AB_def handler_AB_def
        caught_def reraised_def)
  note ev = Let_def failure_mailbox_env mb_failure_def fault_at_def default_port_def
    IMAP4_PORT_def fresh_session_def handler_AB_def imap_login_def call_def
  note t1 = check_recovers_only_transient [OF result_pair [OF b1], of 0]
  note t2 = check_recovers_only_transient [OF b2, of "Suc 0"]
  note t3 = check_recovers_only_transient [OF b3, of 0]
  note t4 = check_recovers_only_transient [OF b4, of 0]
  from t1 have p1: "map_option fst (check (Suc 0) ?E1 ?s) = Some (Inl (SslError 2))"
    by (simp del: check.simps)
  note c2' = result_some [OF c2]
  from t2 [THEN conjunct2, THEN conjunct1, rule_format, OF disjI1 [OF refl] c2'] obtain pre where
    "history (snd (the (check (Suc (Suc 0)) ?E2 ?s))) =
       pre @ Connect ''mail'' 143 False # history ?sb"
    by (auto simp add: default_port_def IMAP4_PORT_def handler_AB_def simp del: check.simps)
  then have "Connect ''mail'' 143 False \<in> set (history (snd (the (check (Suc (Suc 0)) ?E2 ?s))))"
    by simp
  with c2' have p2:
    "\<exists>r s'. check (Suc (Suc 0)) ?E2 ?s = Some (r, s') \<and> Connect ''mail'' 143 False \<in> set (history s')"
    by blast
  from t2 [THEN conjunct2, THEN conjunct2, rule_format, OF disjI1 [OF refl]]
  have p3: "check (Suc (Suc 0)) ?E2 ?s =
     check (Suc 0) ?E2
          \<lparr>self = handler_AB 143 [''A'' \<mapsto> 1, ''B'' \<mapsto> 0],
           history = [Login ''user'' ''secret'', Connect ''mail'' 143 False, Select ''A'',
                      ListFolders]\<rparr>"
    by (simp add: ev del: check.simps)
  from t3 [THEN conjunct2, THEN conjunct2, rule_format, OF disjI1 [OF refl]]
  have p4: "check (Suc 0) ?E3 ?s =
     Some (Inl SocketError,
           \<lparr>self = handler_AB 143 [''A'' \<mapsto> 1, ''B'' \<mapsto> 0],
            history = [Connect ''mail'' 143 False, Select ''A'', ListFolders]\<rparr>)"
    by (simp add: ev del: check.simps)
  from t4 [THEN conjunct2, THEN conjunct2, rule_format, OF disjI1 [OF refl]]
  have p5: "check (Suc 0) ?E4 ?s =
     Some (Inl ImapError,
           \<lparr>self = handler_AB 143 [''A'' \<mapsto> 1, ''B'' \<mapsto> 0],
            history = [Login ''user'' ''secret'', Connect ''mail'' 143 False, Select ''A'',
                       ListFolders]\<rparr>)"
    by (simp add: ev del: check.simps)
  from b1 p1 b2 p2 p3 c2 p4 p5 show ?thesis
    by (simp del: check.simps)
qed

section \<open>Claim C5: the folder-filter example\<close>

lemma gmail_skipped:
  "contains ''[Gmail]'' folder \<Longrightarrow>
   check_folder E folder hs s = (Inr hs, s) \<and> init_folder E folder s = (Inr (), s)"
  by (simp add: check_folder_def init_folder_def return_def)

lemma filter_patterns:
  "re_compile ''.*'' = Some [AnyStar]"
  "re_compile ''^Work$'' =
     Some [Bol, Lit (CHR ''W''), Lit (CHR ''o''), Lit (CHR ''r''), Lit (CHR ''k''), Eol]"
  by (simp_all add: metachar_def)

lemma filter_polled:
  "polled [''INBOX'', ''INBOX/Archive'', ''[Gmail]/All Mail''] = [''INBOX'', ''INBOX/Archive'']"
  by (simp add: polled_def)

lemma handler_filter_eq:
  "handler_filter =
     (handler_AB 143 (map_of (map (\<lambda>f. (f, 0)) filter_names)))
       \<lparr>include_re := re_search [AnyStar],
        exclude_re := re_search [Bol, Lit (CHR ''W''), Lit (CHR ''o''), Lit (CHR ''r''),
                                 Lit (CHR ''k''), Eol]\<rparr>"
  unfolding handler_filter_def filter_patterns option.sel ..

lemma filter_get_folders:
  "fst (get_folders (mailbox_env store_filter no_faults) \<lparr>self = handler_filter, history = []\<rparr>) =
     Inr [''INBOX'', ''INBOX/Archive'', ''[Gmail]/All Mail'']"
  by (simp add: handler_all io_all str_all mb_all store_filter_def filter_names_def
      handler_filter_eq handler_AB_def re_search_def lower_def)

lemma filter_check:
  "check (Suc 0) (mailbox_env store_filter no_faults) \<lparr>self = handler_filter, history = []\<rparr> =
     Some (Inr [\<lparr>raw = ''Subject: i'', tags = [(''folder'', ''INBOX'')]\<rparr>],
       \<lparr>self = handler_filter\<lparr>last_uid := (last_uid handler_filter)(''INBOX'' \<mapsto> 3)\<rparr>,
        history = [Search 1, Select ''INBOX/Archive'', FetchUid ''1'', FetchHeader ''1'', Search 1,
                   Select ''INBOX'', ListFolders]\<rparr>)"
  by (simp add: handler_all io_all str_all mb_all store_filter_def filter_names_def
      handler_filter_eq handler_AB_def re_search_def lower_def)

lemma filter_set_last_uids:
  "selects (history (snd (set_last_uids (mailbox_env store_filter no_faults)
       \<lparr>self = handler_filter, history = []\<rparr>))) = [''INBOX'', ''INBOX/Archive'']"
  by (simp add: handler_all io_all str_all mb_all store_filter_def filter_names_def
      handler_filter_eq handler_AB_def re_search_def lower_def selects_def)

text \<open>
  C5.  The server lists \<open>INBOX\<close>, \<open>INBOX/Archive\<close>, \<open>[Gmail]/All Mail\<close> and \<open>Work\<close>;
  the include pattern is \<open>.*\<close> and the exclude pattern \<open>^Work$\<close>.  Then \<^verbatim>\<open>get_folders\<close>
  returns the first three (the pattern removes \<open>Work\<close>), the loops of \<^verbatim>\<open>check\<close> and
  \<^verbatim>\<open>set_last_uids\<close> open exactly \<open>INBOX\<close> and \<open>INBOX/Archive\<close>, and with any server and
  any patterns the Gmail folder is passed over without a request.
\<close>

theorem folder_filter_example:
  "fst (get_folders (mailbox_env store_filter no_faults)
          \<lparr>self = handler_filter, history = []\<rparr>) =
     Inr [''INBOX'', ''INBOX/Archive'', ''[Gmail]/All Mail''] \<and>
   polled [''INBOX'', ''INBOX/Archive'', ''[Gmail]/All Mail''] = [''INBOX'', ''INBOX/Archive''] \<and>
   map_option (\<lambda>r. selects (history (snd r)))
     (check (Suc 0) (mailbox_env store_filter no_faults)
        \<lparr>self = handler_filter, history = []\<rparr>) = Some [''INBOX'', ''INBOX/Archive''] \<and>
   selects (history (snd (set_last_uids (mailbox_env store_filter no_faults)
       \<lparr>self = handler_filter, history = []\<rparr>))) = [''INBOX'', ''INBOX/Archive''] \<and>
   (\<forall>E hs s. check_folder E ''[Gmail]/All Mail'' hs s = (Inr hs, s) \<and>
             init_folder E ''[Gmail]/All Mail'' s = (Inr (), s))"
proof -
  have g: "contains ''[Gmail]'' ''[Gmail]/All Mail''" by simp
  have "map_option (\<lambda>r. selects (history (snd r)))
     (check (Suc 0) (mailbox_env store_filter no_faults)
        \<lparr>self = handler_filter, history = []\<rparr>) = Some [''INBOX'', ''INBOX/Archive'']"
    unfolding filter_check by (simp add: selects_def)
  with filter_get_folders filter_polled filter_set_last_uids gmail_skipped [OF g]
  show ?thesis by blast
qed

section \<open>Claim C6: the marks after initialization\<close>

text \<open>
  C6.  The envelope \<open>(UID k)\<close> is parsed to \<open>k\<close>.  Let the server answer from a mail
  store and let \<^verbatim>\<open>set_last_uids\<close> succeed.  Then a folder has a mark iff \<^verbatim>\<open>get_folders\<close>
  returned it, it is outside the Gmail tree and it can be opened; the mark is 0 if the folder
  holds no message and the UID of its last message in sequence order otherwise.
\<close>

theorem marks_after_initialization:
  "search_uid (''(UID '' @ show_nat k @ '')'') = Some k \<and>
   (get_folders (mailbox_env w F) (s\<lparr>self := (self s)\<lparr>last_uid := Map.empty\<rparr>\<rparr>) = (Inr fs, s1) \<longrightarrow>
    set_last_uids (mailbox_env w F) s = (Inr u, s') \<longrightarrow>
      last_uid (self s') f =
        (if f \<in> set (polled fs)
         then (case boxes w f of
                 None \<Rightarrow> None
               | Some ms \<Rightarrow> Some (if ms = [] then 0 else m_uid (last ms)))
         else None))"
proof -
  let ?E = "mailbox_env w F"
  let ?s0 = "s\<lparr>self := (self s)\<lparr>last_uid := Map.empty\<rparr>\<rparr>"
  have one: "search_uid (''(UID '' @ show_nat k @ '')'') = Some k"
    using uid_here_envelope [of k] by simp
  have two: "last_uid (self s') f =
        (if f \<in> set (polled fs)
         then (case boxes w f of
                 None \<Rightarrow> None
               | Some ms \<Rightarrow> Some (if ms = [] then 0 else m_uid (last ms)))
         else None)"
    if g: "get_folders ?E ?s0 = (Inr fs, s1)" and r: "set_last_uids ?E s = (Inr u, s')"
  proof -
    have k: "self s1 = self ?s0"
      using keepsD [OF keeps_get_folders g, where field = "\<lambda>h. h"] by simp
    from r g have "set_last_uids_loop ?E fs s1 = (Inr u, s')"
      by (simp add: set_last_uids_def bind_modify bind_result [where m = "get_folders ?E"])
    from set_last_uids_loop_mb [OF this, of f] k show ?thesis
      by (simp split: option.splits)
  qed
  from one two show ?thesis by blast
qed

text \<open>
  A folder whose last message has UID 4821 gets the mark 4821, an empty folder the mark 0,
  and a mark from before the call is gone.
\<close>

theorem marks_after_initialization_witness:
  "fst (set_last_uids (mailbox_env store_4821 no_faults)
          \<lparr>self = handler_AB 143 [''X'' \<mapsto> 9], history = []\<rparr>) = Inr () \<and>
   last_uid (self (snd (set_last_uids (mailbox_env store_4821 no_faults)
          \<lparr>self = handler_AB 143 [''X'' \<mapsto> 9], history = []\<rparr>))) ''INBOX'' = Some 4821 \<and>
   last_uid (self (snd (set_last_uids (mailbox_env store_4821 no_faults)
          \<lparr>self = handler_AB 143 [''X'' \<mapsto> 9], history = []\<rparr>))) ''Empty'' = Some 0 \<and>
   last_uid (self (snd (set_last_uids (mailbox_env store_4821 no_faults)
          \<lparr>self = handler_AB 143 [''X'' \<mapsto> 9], history = []\<rparr>))) ''X'' = None"
proof -
  let ?s = "\<lparr>self = handler_AB 143 [''X'' \<mapsto> 9], history = []\<rparr>"
  let ?E = "mailbox_env store_4821 no_faults"
  have g: "fst (get_folders ?E (?s\<lparr>self := (self ?s)\<lparr>last_uid := Map.empty\<rparr>\<rparr>)) =
      Inr [''INBOX'', ''Empty'']"
    by (simp add: handler_all io_all str_all mb_all store_4821_def handler_AB_def)
  have r: "fst (set_last_uids ?E ?s) = Inr ()"
    by (simp add: handler_all io_all str_all mb_all store_4821_def handler_AB_def)
  have p: "polled [''INBOX'', ''Empty''] = [''INBOX'', ''Empty'']"
    by (simp add: polled_def)
  have b: "boxes store_4821 ''INBOX'' =
      Some [\<lparr>m_uid = 17, m_seen = True, m_text = ''Subject: old''\<rparr>,
            \<lparr>m_uid = 4821, m_seen = True, m_text = ''Subject: last''\<rparr>]"
    "boxes store_4821 ''Empty'' = Some []"
    by (simp_all add: store_4821_def)
  note t = marks_after_initialization [THEN conjunct2, rule_format,
      OF result_pair [OF g] result_pair [OF r]]
  from t [of "''INBOX''"] t [of "''Empty''"] t [of "''X''"] r show ?thesis
    by (simp add: p b)
qed

section \<open>Claim C7: a malformed UID envelope during initialization\<close>

text \<open>
  C7.  Let \<^verbatim>\<open>set_last_uids\<close> have gone through some folders and reach a folder outside the
  Gmail tree.  If opening it reports \<open>NO\<close>, the folder is skipped and the loop goes on with
  the remaining folders.  If it opens with a message count other than \<open>0\<close> and the text
  returned by the UID fetch does not contain \<open>(UID digits)\<close>, the loop ends at once with the
  error of the failed match (\<open>AttributeError\<close>, the specification's \<open>ParseError\<close>): no
  later folder is visited and no mark is written.
\<close>

theorem malformed_uid_aborts_initialization:
  assumes "set_last_uids_loop E pre s0 = (Inr (), s)"
    and "\<not> contains ''[Gmail]'' folder"
    and "failure E (Select folder # history s) = None"
    and "reply_select E (Select folder # history s) = (status, data)"
  shows "(status = ''NO'' \<longrightarrow>
            set_last_uids_loop E (pre @ folder # rest) s0 =
            set_last_uids_loop E rest (s\<lparr>history := Select folder # history s\<rparr>)) \<and>
         (status \<noteq> ''NO'' \<longrightarrow>
            (\<forall>last_msgid others uid_text others'.
               data = last_msgid # others \<longrightarrow> last_msgid \<noteq> ''0'' \<longrightarrow>
               failure E (FetchUid last_msgid # Select folder # history s) = None \<longrightarrow>
               reply_strings E (FetchUid last_msgid # Select folder # history s) = uid_text # others' \<longrightarrow>
               search_uid uid_text = None \<longrightarrow>
               set_last_uids_loop E (pre @ folder # rest) s0 =
               (Inl AttributeError,
                s\<lparr>history := FetchUid last_msgid # Select folder # history s\<rparr>)))"
proof -
  have skip: "set_last_uids_loop E (pre @ folder # rest) s0 =
            set_last_uids_loop E rest (s\<lparr>history := Select folder # history s\<rparr>)"
    if "status = ''NO''"
  proof -
    from that assms have "init_folder E folder s = (Inr (), s\<lparr>history := Select folder # history s\<rparr>)"
      by (simp add: init_folder_def imap_select_def step return_def)
    then show ?thesis
      by (simp add: set_last_uids_loop_append bind_result [where m = "set_last_uids_loop E pre", OF assms(1)] bind_result)
  qed
  have abort: "set_last_uids_loop E (pre @ folder # rest) s0 =
               (Inl AttributeError, s\<lparr>history := FetchUid last_msgid # Select folder # history s\<rparr>)"
    if "status \<noteq> ''NO''" "data = last_msgid # others" "last_msgid \<noteq> ''0''"
      "failure E (FetchUid last_msgid # Select folder # history s) = None"
      "reply_strings E (FetchUid last_msgid # Select folder # history s) = uid_text # others'"
      "search_uid uid_text = None" for last_msgid others uid_text others'
  proof -
    from that assms have "init_folder E folder s =
        (Inl AttributeError, s\<lparr>history := FetchUid last_msgid # Select folder # history s\<rparr>)"
      by (intro init_folder_garbage) simp_all
    then show ?thesis
      by (simp add: set_last_uids_loop_append bind_result [where m = "set_last_uids_loop E pre", OF assms(1)] bind_error)
  qed
  from skip abort show ?thesis by blast
qed

text \<open>
  A server that answers \<open>garbage\<close> to the UID fetch: the loop stops in folder \<open>A\<close> and the
  constructor fails with the same error.  A folder that cannot be opened is only skipped.
\<close>

theorem malformed_uid_aborts_initialization_witness:
  "search_uid ''garbage'' = None \<and>
   set_last_uids_loop garbage_env [''A'', ''B'']
       \<lparr>self = handler_AB 143 Map.empty, history = []\<rparr> =
     (Inl AttributeError,
      \<lparr>self = handler_AB 143 Map.empty, history = [FetchUid ''2'', Select ''A'']\<rparr>) \<and>
   init garbage_env ''mail'' ''user'' ''secret'' None False (\<lambda>_. True) (\<lambda>_. False) False [] =
     Inl AttributeError \<and>
   set_last_uids_loop (mailbox_env store_B_closed no_faults) [''B'', ''A'']
       \<lparr>self = handler_AB 143 Map.empty, history = []\<rparr> =
     set_last_uids_loop (mailbox_env store_B_closed no_faults) [''A'']
       \<lparr>self = handler_AB 143 Map.empty, history = [Select ''B'']\<rparr>"
proof -
  let ?s = "\<lparr>self = handler_AB 143 Map.empty, history = []\<rparr>"
  let ?C = "mailbox_env store_B_closed no_faults"
  have g: "search_uid ''garbage'' = None"
    by (simp add: uid_here_def)
  have nil: "set_last_uids_loop E [] ?s = (Inr (), ?s)" for E
    by (simp add: return_def)
  have a: "\<not> contains ''[Gmail]'' ''A''" "\<not> contains ''[Gmail]'' ''B''"
    by simp_all
  have e1: "failure garbage_env (Select ''A'' # history ?s) = None"
    "reply_select garbage_env (Select ''A'' # history ?s) = (''OK'', [''2''])"
    "failure garbage_env (FetchUid ''2'' # Select ''A'' # history ?s) = None"
    "reply_strings garbage_env (FetchUid ''2'' # Select ''A'' # history ?s) = [''garbage'']"
    by (simp_all add: garbage_env_def mb_all str_all store_AB_def)
  have e2: "failure ?C (Select ''B'' # history ?s) = None"
    "reply_select ?C (Select ''B'' # history ?s) = (''NO'', [''Mailbox does not exist''])"
    by (simp_all add: mb_all store_B_closed_def store_AB_def)
  note t1 = malformed_uid_aborts_initialization [OF nil a(1) e1(1) e1(2), of "[''B'']",
      THEN conjunct2, rule_format, OF _ refl _ e1(3) e1(4) g]
  note t2 = malformed_uid_aborts_initialization [OF nil a(2) e2(1) e2(2), of "[''A'']",
      THEN conjunct1, rule_format, OF refl]
  have i: "init garbage_env ''mail'' ''user'' ''secret'' None False (\<lambda>_. True) (\<lambda>_. False) False [] =
     Inl AttributeError"
    by (simp add: handler_all io_all str_all mb_all garbage_env_def store_AB_def)
  from t1 have p1: "set_last_uids_loop garbage_env [''A'', ''B''] ?s =
     (Inl AttributeError,
      \<lparr>self = handler_AB 143 Map.empty, history = [FetchUid ''2'', Select ''A'']\<rparr>)"
    by simp
  from t2 have p2: "set_last_uids_loop ?C [''B'', ''A''] ?s =
     set_last_uids_loop ?C [''A''] \<lparr>self = handler_AB 143 Map.empty, history = [Select ''B'']\<rparr>"
    by (simp del: set_last_uids_loop.simps)
  from g p1 i p2 show ?thesis by blast
qed

section \<open>Claim C8: a folder without a mark\<close>

text \<open>
  C8.  A folder whose opening reports \<open>NO\<close> during initialization is passed over without a
  mark being written.  If \<^verbatim>\<open>check\<close> later reaches a folder outside the Gmail tree that opens
  (status other than \<open>NO\<close>) and has no mark, the lookup \<^verbatim>\<open>self.last_uid[folder]\<close> raises
  \<open>KeyError\<close> right after the \<^verbatim>\<open>select\<close>, before any search is sent, and \<^verbatim>\<open>check\<close> fails with
  that error: it is not one of the errors that start the recovery.
\<close>

theorem unguarded_mark_lookup:
  "(failure E (Select folder # history s) = None \<longrightarrow>
    fst (reply_select E (Select folder # history s)) = ''NO'' \<longrightarrow>
      fst (init_folder E folder s) = Inr () \<and>
      last_uid (self (snd (init_folder E folder s))) = last_uid (self s)) \<and>
   (get_folders E s0 = (Inr (pre @ folder # rest), sa) \<longrightarrow>
    check_loop E pre [] sa = (Inr hs, s) \<longrightarrow>
    \<not> contains ''[Gmail]'' folder \<longrightarrow>
    failure E (Select folder # history s) = None \<longrightarrow>
    reply_select E (Select folder # history s) = (status, [nmesgs]) \<longrightarrow>
    status \<noteq> ''NO'' \<longrightarrow>
    last_uid (self s) folder = None \<longrightarrow>
      check (Suc n) E s0 = Some (Inl KeyError, s\<lparr>history := Select folder # history s\<rparr>))"
proof -
  have one: "fst (init_folder E folder s) = Inr () \<and>
      last_uid (self (snd (init_folder E folder s))) = last_uid (self s)"
    if "failure E (Select folder # history s) = None"
      "fst (reply_select E (Select folder # history s)) = ''NO''"
    using that by (simp add: init_folder_def imap_select_def step)
  have two: "check (Suc n) E s0 = Some (Inl KeyError, s\<lparr>history := Select folder # history s\<rparr>)"
    if gf: "get_folders E s0 = (Inr (pre @ folder # rest), sa)"
      and pre: "check_loop E pre [] sa = (Inr hs, s)"
      and g: "\<not> contains ''[Gmail]'' folder"
      and sel: "failure E (Select folder # history s) = None"
        "reply_select E (Select folder # history s) = (status, [nmesgs])"
        "status \<noteq> ''NO''"
      and nokey: "last_uid (self s) folder = None"
  proof -
    from g sel nokey have "check_folder E folder hs s =
        (Inl KeyError, s\<lparr>history := Select folder # history s\<rparr>)"
      by (simp add: check_folder_def imap_select_def step)
    then have "check_loop E (pre @ folder # rest) [] sa =
        (Inl KeyError, s\<lparr>history := Select folder # history s\<rparr>)"
      by (simp add: check_loop_append bind_result [where m = "check_loop E pre []", OF pre]
          bind_error)
    with gf have "check_body E s0 = (Inl KeyError, s\<lparr>history := Select folder # history s\<rparr>)"
      by (simp add: check_body_def bind_result [where m = "get_folders E"])
    then show ?thesis
      by (rule check_propagate) (simp add: caught_def)
  qed
  from one two show ?thesis by blast
qed

text \<open>
  Folder \<open>B\<close> cannot be opened while the handler is constructed and can be opened
  afterwards: the next \<^verbatim>\<open>check\<close> fails with \<open>KeyError\<close>.
\<close>

theorem unguarded_mark_lookup_witness:
  "init (mailbox_env store_B_closed no_faults) ''mail'' ''user'' ''secret'' None False
       (\<lambda>_. True) (\<lambda>_. False) False [] =
     Inr \<lparr>self = handler_AB 143 [''A'' \<mapsto> 5],
          history = [Select ''B'', FetchUid ''2'', Select ''A'', ListFolders,
                     Login ''user'' ''secret'', Connect ''mail'' 143 False]\<rparr> \<and>
   check (Suc 0) (mailbox_env store_AB no_faults)
       \<lparr>self = handler_AB 143 [''A'' \<mapsto> 5],
        history = [Select ''B'', FetchUid ''2'', Select ''A'', ListFolders,
                   Login ''user'' ''secret'', Connect ''mail'' 143 False]\<rparr> =
     Some (Inl KeyError,
       \<lparr>self = handler_AB 143 [''A'' \<mapsto> 5],
        history = [Select ''B'', Search 6, Select ''A'', ListFolders,
                   Select ''B'', FetchUid ''2'', Select ''A'', ListFolders,
                   Login ''user'' ''secret'', Connect ''mail'' 143 False]\<rparr>)"
proof -
  let ?C = "mailbox_env store_B_closed no_faults"
  let ?E = "mailbox_env store_AB no_faults"
  let ?h0 = "[Select ''B'', FetchUid ''2'', Select ''A'', ListFolders,
                     Login ''user'' ''secret'', Connect ''mail'' 143 False]"
  let ?obj = "handler_AB 143 [''A'' \<mapsto> 5]"
  let ?sb = "\<lparr>self = handler_AB 143 Map.empty,
             history = [FetchUid ''2'', Select ''A'', ListFolders,
                     Login ''user'' ''secret'', Connect ''mail'' 143 False]\<rparr>"
  have i: "init ?C ''mail'' ''user'' ''secret'' None False (\<lambda>_. True) (\<lambda>_. False) False [] =
     Inr \<lparr>self = ?obj, history = ?h0\<rparr>"
    by (simp add: handler_all io_all str_all mb_all store_B_closed_def store_AB_def handler_AB_def)
  have c1: "failure ?C (Select ''B'' # history ?sb) = None"
    "fst (reply_select ?C (Select ''B'' # history ?sb)) = ''NO''"
    by (simp_all add: mb_all store_B_closed_def store_AB_def)
  note t1 = unguarded_mark_lookup [THEN conjunct1, rule_format, OF c1]
  have gf: "get_folders ?E \<lparr>self = ?obj, history = ?h0\<rparr> =
      (Inr ([''A''] @ ''B'' # []), \<lparr>self = ?obj, history = ListFolders # ?h0\<rparr>)"
    by (simp add: handler_all io_all str_all mb_all store_AB_def handler_AB_def)
  have pre: "check_loop ?E [''A''] [] \<lparr>self = ?obj, history = ListFolders # ?h0\<rparr> =
      (Inr [], \<lparr>self = ?obj, history = Search 6 # Select ''A'' # ListFolders # ?h0\<rparr>)"
    by (simp add: handler_all io_all str_all mb_all store_AB_def handler_AB_def)
  have sel: "failure ?E (Select ''B'' #
        history \<lparr>self = ?obj, history = Search 6 # Select ''A'' # ListFolders # ?h0\<rparr>) = None"
    "reply_select ?E (Select ''B'' #
        history \<lparr>self = ?obj, history = Search 6 # Select ''A'' # ListFolders # ?h0\<rparr>) =
      (''OK'', [''1''])"
    "last_uid (self \<lparr>self = ?obj, history = Search 6 # Select ''A'' # ListFolders # ?h0\<rparr>) ''B'' =
       None"
    by (simp_all add: mb_all str_all store_AB_def handler_AB_def)
  have g: "\<not> contains ''[Gmail]'' ''B''" "''OK'' \<noteq> ''NO''"
    by simp_all
  note t2 = unguarded_mark_lookup [THEN conjunct2, rule_format, OF gf pre g(1) sel(1) sel(2) g(2)
      sel(3), of 0]
  from t1 have "last_uid (self (snd (init_folder ?C ''B'' ?sb))) = Map.empty"
    by (simp add: handler_AB_def)
  from t2 have "check (Suc 0) ?E \<lparr>self = ?obj, history = ?h0\<rparr> =
     Some (Inl KeyError,
       \<lparr>self = ?obj, history = Select ''B'' # Search 6 # Select ''A'' # ListFolders # ?h0\<rparr>)"
    by (simp del: check.simps)
  with i show ?thesis by simp
qed

section \<open>Claim C9: the port of the rebuilt session\<close>

text \<open>
  C9.  The constructor, given an explicit non-zero port, connects to that port and keeps it
  in \<^verbatim>\<open>self.port\<close>.  The recovery of \<^verbatim>\<open>check\<close> builds the new session from the server host
  alone: after a successful recovery, and so after a \<^verbatim>\<open>check\<close> that returns headers after a
  transient failure, the session is connected to the default port of the library (993 with
  SSL, 143 without) whatever \<^verbatim>\<open>self.port\<close> is, and \<^verbatim>\<open>self.port\<close> itself is unchanged.
\<close>

theorem recovery_connects_to_default_port:
  "(init E host user pass (Some p) use_ssl inc exc g hist = Inr s0 \<longrightarrow> p \<noteq> 0 \<longrightarrow>
      port (self s0) = p \<and> imap (self s0) = \<lparr>s_host = host, s_port = p, s_ssl = use_ssl\<rparr>) \<and>
   (recover E s = (Inr u, s1) \<longrightarrow>
      port (self s1) = port (self s) \<and> imap (self s1) = fresh_session (self s)) \<and>
   (check_body E s = (Inl e, s2) \<longrightarrow> e = Abort \<or> e = SslError 8 \<longrightarrow>
    check (Suc n) E s = Some (Inr hs, s') \<longrightarrow>
      port (self s') = port (self s) \<and> imap (self s') = fresh_session (self s))"
proof -
  have one: "port (self s0) = p \<and> imap (self s0) = \<lparr>s_host = host, s_port = p, s_ssl = use_ssl\<rparr>"
    if "init E host user pass (Some p) use_ssl inc exc g hist = Inr s0" "p \<noteq> 0"
    using that by (rule init_session)
  have two: "port (self s1) = port (self s) \<and> imap (self s1) = fresh_session (self s)"
    if "recover E s = (Inr u, s1)"
    using recover_session [OF that] by simp
  have three: "port (self s') = port (self s) \<and> imap (self s') = fresh_session (self s)"
    if b: "check_body E s = (Inl e, s2)" and t: "e = Abort \<or> e = SslError 8"
      and c: "check (Suc n) E s = Some (Inr hs, s')"
  proof -
    from t have ce: "caught e" "\<not> reraised e" using transient_iff [of e] by blast+
    have k: "server (self s2) = server (self s)" "port (self s2) = port (self s)"
      "imap (self s2) = imap (self s)"
      using keepsD [OF keeps_check_body b, where field = server]
        keepsD [OF keeps_check_body b, where field = port]
        keepsD [OF keeps_check_body b, where field = imap]
      by simp_all
    obtain r3 s3 where rc: "recover E s2 = (r3, s3)" by (cases "recover E s2")
    show ?thesis
    proof (cases r3)
      case (Inl e')
      with check_recover_fail [OF b ce, of e' s3 n] rc c show ?thesis by simp
    next
      case (Inr v)
      with check_retry [OF b ce, of v s3 n] rc c have c3: "check n E s3 = Some (Inr hs, s')"
        by simp
      from recover_session [OF rc] Inr k have
        s3: "server (self s3) = server (self s)" "port (self s3) = port (self s)"
          "imap (self s3) = fresh_session (self s)"
        by (simp_all add: fresh_session_def)
      from check_session [OF c3] s3 show ?thesis
        by (auto simp: fresh_session_def)
    qed
  qed
  from one two three show ?thesis by blast
qed

text \<open>
  A handler constructed with port 1143: the constructor connects to 1143; after an abort
  during \<^verbatim>\<open>check\<close> the session is connected to 143 while \<^verbatim>\<open>self.port\<close> is still 1143.
\<close>

theorem recovery_connects_to_default_port_witness:
  "\<not> isl (init (mailbox_env store_AB no_faults) ''mail'' ''user'' ''secret'' (Some 1143) False
            (\<lambda>_. True) (\<lambda>_. False) False []) \<and>
   s_port (imap (self (projr (init (mailbox_env store_AB no_faults) ''mail'' ''user'' ''secret''
            (Some 1143) False (\<lambda>_. True) (\<lambda>_. False) False [])))) = 1143 \<and>
   fst (recover (mailbox_env store_AB no_faults)
          \<lparr>self = handler_AB 1143 [''A'' \<mapsto> 1, ''B'' \<mapsto> 0], history = []\<rparr>) = Inr () \<and>
   s_port (imap (self (snd (recover (mailbox_env store_AB no_faults)
          \<lparr>self = handler_AB 1143 [''A'' \<mapsto> 1, ''B'' \<mapsto> 0], history = []\<rparr>)))) = 143 \<and>
   fst (check_body (mailbox_env store_AB (fault_at 1 Abort))
          \<lparr>self = handler_AB 1143 [''A'' \<mapsto> 1, ''B'' \<mapsto> 0], history = []\<rparr>) = Inl Abort \<and>
   (\<exists>hs s'. check (Suc (Suc 0)) (mailbox_env store_AB (fault_at 1 Abort))
          \<lparr>self = handler_AB 1143 [''A'' \<mapsto> 1, ''B'' \<mapsto> 0], history = []\<rparr> = Some (Inr hs, s') \<and>
      port (self s') = 1143 \<and> s_port (imap (self s')) = 143)"
proof -
  let ?s = "\<lparr>self = handler_AB 1143 [''A'' \<mapsto> 1, ''B'' \<mapsto> 0], history = []\<rparr>"
  let ?E = "mailbox_env store_AB no_faults"
  let ?F = "mailbox_env store_AB (fault_at 1 Abort)"
  let ?i = "init ?E ''mail'' ''user'' ''secret'' (Some 1143) False (\<lambda>_. True) (\<lambda>_. False) False []"
  have i: "\<not> isl ?i"
    by (simp add: handler_all io_all str_all mb_all store_AB_def)
  have r: "fst (recover ?E ?s) = Inr ()"
    by (simp add: handler_all io_all mb_all handler_AB_def)
  have b: "fst (check_body ?F ?s) = Inl Abort"
    by (simp add: handler_all io_all str_all mb_all store_AB_def handler_AB_def)
  have c: "map_option fst (check (Suc (Suc 0)) ?F ?s) =
      Some (Inr [\<lparr>raw = ''Subject: a2'', tags = [(''folder'', ''A'')]\<rparr>,
                 \<lparr>raw = ''Subject: b1'', tags = [(''folder'', ''B'')]\<rparr>])"
    by (simp add: handler_all io_all str_all mb_all store_AB_def handler_AB_def
        caught_def reraised_def)
  note c' = result_some [OF c]
  have f: "fresh_session (self ?s) = \<lparr>s_host = ''mail'', s_port = 143, s_ssl = False\<rparr>"
    "port (self ?s) = 1143"
    by (simp_all add: fresh_session_def default_port_def IMAP4_PORT_def handler_AB_def)
  note t1 = recovery_connects_to_default_port [of ?E "''mail''" "''user''" "''secret''" 1143 False
      "\<lambda>_. True" "\<lambda>_. False" False "[]" "projr ?i", THEN conjunct1, rule_format,
      OF result_inr [OF i]]
  note t2 = recovery_connects_to_default_port [THEN conjunct2, THEN conjunct1, rule_format,
      OF result_pair [OF r]]
  note t3 = recovery_connects_to_default_port [THEN conjunct2, THEN conjunct2, rule_format,
      OF result_pair [OF b] disjI1 [OF refl] c']
  from t1 have p1: "s_port (imap (self (projr ?i))) = 1143" by simp
  from t2 f have p2: "s_port (imap (self (snd (recover ?E ?s)))) = 143" by simp
  from t3 f have "port (self (snd (the (check (Suc (Suc 0)) ?F ?s)))) = 1143 \<and>
      s_port (imap (self (snd (the (check (Suc (Suc 0)) ?F ?s))))) = 143"
    by (simp del: check.simps)
  with c' have p3: "\<exists>hs s'. check (Suc (Suc 0)) ?F ?s = Some (Inr hs, s') \<and>
      port (self s') = 1143 \<and> s_port (imap (self s')) = 143"
    by blast
  from i p1 r p2 b p3 show ?thesis by blast
qed

section \<open>Claim C10: the GSSAPI state is never reset\<close>

text \<open>
  C10.  Let the handler be in state \<open>WRAP\<close> with a security context \<open>c\<close>, as a completed
  exchange leaves it.  Then the recovery of \<^verbatim>\<open>check\<close> leaves state and context as they are,
  and every Kerberos call it makes is an unwrap, a wrap or a response on \<open>c\<close>: no
  context is created and none is stepped.  When the server sends a challenge, the first
  thing the callback does is to unwrap that challenge with \<open>c\<close>.  A whole \<^verbatim>\<open>check\<close>, with
  any number of recoveries, ends in state \<open>WRAP\<close> with context \<open>c\<close> too.
\<close>

theorem recovery_reuses_gss_state:
  assumes "gss_step (self s) = GSS_STATE_WRAP" and "gss_vc (self s) = Some c"
  shows "(recover E s = (r, s') \<longrightarrow>
            gss_step (self s') = GSS_STATE_WRAP \<and> gss_vc (self s') = Some c \<and>
            (\<exists>pre. history s' = pre @ history s \<and> list_all (stale_only c) pre)) \<and>
         (gssapi (self s) \<longrightarrow> have_kerberos_gss E \<longrightarrow>
          failure E (Connect (server (self s)) (default_port (s_ssl (imap (self s))))
                       (s_ssl (imap (self s))) # history s) = None \<longrightarrow>
          failure E (Authenticate ''GSSAPI'' #
                     Connect (server (self s)) (default_port (s_ssl (imap (self s))))
                       (s_ssl (imap (self s))) # history s) = None \<longrightarrow>
          challenges E (Authenticate ''GSSAPI'' #
                        Connect (server (self s)) (default_port (s_ssl (imap (self s))))
                          (s_ssl (imap (self s))) # history s) = ch # chs \<longrightarrow>
            (\<exists>pre. history (snd (recover E s)) =
               pre @ KrbUnwrap c (b64encode E ch) # Authenticate ''GSSAPI'' #
               Connect (server (self s)) (default_port (s_ssl (imap (self s))))
                 (s_ssl (imap (self s))) # history s)) \<and>
         (check n E s = Some (r', s'') \<longrightarrow>
            gss_step (self s'') = GSS_STATE_WRAP \<and> gss_vc (self s'') = Some c)"
  using recover_wrap [OF assms, of E r s'] recover_first_callback [OF assms, of E ch chs]
    check_wrap [OF assms, of n E r' s'']
  by blast

text \<open>
  A handler in state \<open>WRAP\<close> with context 7 whose \<^verbatim>\<open>check\<close> is aborted once: the recovery
  authenticates again and unwraps the challenge with context 7.
\<close>

theorem recovery_reuses_gss_state_witness:
  "gss_step handler_gss = GSS_STATE_WRAP \<and> gss_vc handler_gss = Some 7 \<and>
   list_all (stale_only 7)
     (history (snd (recover (krb_env no_faults) \<lparr>self = handler_gss, history = []\<rparr>))) \<and>
   KrbUnwrap 7 ''challenge'' \<in>
     set (history (snd (recover (krb_env no_faults) \<lparr>self = handler_gss, history = []\<rparr>))) \<and>
   (\<exists>r s'. check (Suc (Suc 0)) (krb_env (fault_at 1 Abort))
              \<lparr>self = handler_gss, history = []\<rparr> = Some (r, s') \<and>
           Authenticate ''GSSAPI'' \<in> set (history s') \<and>
           gss_step (self s') = GSS_STATE_WRAP \<and> gss_vc (self s') = Some 7)"
proof -
  let ?s = "\<lparr>self = handler_gss, history = []\<rparr>"
  let ?E = "krb_env no_faults"
  let ?F = "krb_env (fault_at 1 Abort)"
  have w: "gss_step (self ?s) = GSS_STATE_WRAP" "gss_vc (self ?s) = Some 7"
    by (simp_all add: handler_gss_def)
  have e: "gssapi (self ?s)" "have_kerberos_gss ?E"
    "failure ?E (Connect (server (self ?s)) (default_port (s_ssl (imap (self ?s))))
                       (s_ssl (imap (self ?s))) # history ?s) = None"
    "failure ?E (Authenticate ''GSSAPI'' #
                     Connect (server (self ?s)) (default_port (s_ssl (imap (self ?s))))
                       (s_ssl (imap (self ?s))) # history ?s) = None"
    "challenges ?E (Authenticate ''GSSAPI'' #
                        Connect (server (self ?s)) (default_port (s_ssl (imap (self ?s))))
                          (s_ssl (imap (self ?s))) # history ?s) = ''challenge'' # []"
    "b64encode ?E ''challenge'' = ''challenge''"
    by (simp_all add: krb_env_def mb_all handler_gss_def handler_AB_def)
  have c: "map_option fst (check (Suc (Suc 0)) ?F ?s) = Some (Inr [])"
    by (simp add: handler_all io_all str_all mb_all krb_env_def store_AB_def handler_gss_def
        handler_AB_def caught_def reraised_def imap_authenticate_def gssauth_def
        gss_do_wrap_def krb_ctx_def GSS_STATE_STEP_def GSS_STATE_WRAP_def)
  have a: "Authenticate ''GSSAPI'' \<in> set (history (snd (the (check (Suc (Suc 0)) ?F ?s))))"
    by (simp add: handler_all io_all str_all mb_all krb_env_def store_AB_def handler_gss_def
        handler_AB_def caught_def reraised_def imap_authenticate_def gssauth_def
        gss_do_wrap_def krb_ctx_def GSS_STATE_STEP_def GSS_STATE_WRAP_def)
  note c' = result_some [OF c]
  note t = recovery_reuses_gss_state [OF w]
  from t [of ?E "fst (recover ?E ?s)" "snd (recover ?E ?s)", THEN conjunct1]
  have p1: "list_all (stale_only 7) (history (snd (recover ?E ?s)))"
    by auto
  from t [of ?E, THEN conjunct2, THEN conjunct1, rule_format, OF e(1-5)] e(6)
  have p2: "KrbUnwrap 7 ''challenge'' \<in> set (history (snd (recover ?E ?s)))"
    by auto
  from t [of ?F _ _ _ _ "Suc (Suc 0)", THEN conjunct2, THEN conjunct2, rule_format, OF c']
  have p3: "gss_step (self (snd (the (check (Suc (Suc 0)) ?F ?s)))) = GSS_STATE_WRAP \<and>
      gss_vc (self (snd (the (check (Suc (Suc 0)) ?F ?s)))) = Some 7"
    by (simp del: check.simps)
  from c' a p3 have "\<exists>r s'. check (Suc (Suc 0)) ?F ?s = Some (r, s') \<and>
           Authenticate ''GSSAPI'' \<in> set (history s') \<and>
           gss_step (self s') = GSS_STATE_WRAP \<and> gss_vc (self s') = Some 7"
    by blast
  with w p1 p2 show ?thesis by simp
qed

end
